theory Spec2Isabelle
  imports Main
begin

section \<open>Python strings\<close>

text \<open>
  The script \<^verbatim>\<open>scripts/linkify_inventory.py\<close> works on Python \<^verbatim>\<open>str\<close> values: sequences
  of Unicode code points. A code point is a natural number here, so that the em dash
  U+2014 of the file pattern is one character, as it is for \<^verbatim>\<open>len\<close>, \<^verbatim>\<open>find\<close> and
  the regular expressions of the source.
\<close>

type_synonym ustr = "nat list"

text \<open>ASCII literals: the code points of an Isabelle string.\<close>

definition u :: "string \<Rightarrow> ustr" where
  "u s = map of_char s"

definition EM_DASH :: nat where
  "EM_DASH = 8212"

text \<open>
  \<^verbatim>\<open>str.isspace\<close>, \<^verbatim>\<open>str.strip\<close> and the class \<^verbatim>\<open>\s\<close> of \<^verbatim>\<open>re\<close> on \<^verbatim>\<open>str\<close> patterns
  all use CPython's one predicate on code points (\<^verbatim>\<open>Py_UNICODE_ISSPACE\<close>): U+0009..U+000D,
  U+001C..U+0020, U+0085, U+00A0, U+1680, U+2000..U+200A, U+2028, U+2029, U+202F,
  U+205F and U+3000.
\<close>

definition is_space :: "nat \<Rightarrow> bool" where
  "is_space c \<longleftrightarrow>
     (9 \<le> c \<and> c \<le> 13) \<or> (28 \<le> c \<and> c \<le> 32) \<or> c = 133 \<or> c = 160 \<or> c = 5760 \<or>
     (8192 \<le> c \<and> c \<le> 8202) \<or> c = 8232 \<or> c = 8233 \<or> c = 8239 \<or> c = 8287 \<or>
     c = 12288"

definition lstrip :: "ustr \<Rightarrow> ustr" where
  "lstrip s = dropWhile is_space s"

definition rstrip :: "ustr \<Rightarrow> ustr" where
  "rstrip s = rev (dropWhile is_space (rev s))"

definition strip :: "ustr \<Rightarrow> ustr" where
  "strip s = rstrip (lstrip s)"

text \<open>\<^verbatim>\<open>s.rstrip(c)\<close> for a one-character argument: every trailing \<open>c\<close> goes.\<close>

definition rstrip_chr :: "nat \<Rightarrow> ustr \<Rightarrow> ustr" where
  "rstrip_chr c s = rev (dropWhile (\<lambda>x. x = c) (rev s))"

text \<open>\<^verbatim>\<open>s.replace(a, b)\<close> for one-character \<open>a\<close> and \<open>b\<close>.\<close>

definition replace_chr :: "nat \<Rightarrow> nat \<Rightarrow> ustr \<Rightarrow> ustr" where
  "replace_chr a b s = map (\<lambda>x. if x = a then b else x) s"

text \<open>
  \<^verbatim>\<open>s.find(sub)\<close>: the lowest index at which \<open>sub\<close> occurs in \<open>s\<close>, and \<open>-1\<close> when it
  does not occur.
\<close>

fun py_find :: "ustr \<Rightarrow> ustr \<Rightarrow> int" where
  "py_find [] sub = (if sub = [] then 0 else - 1)"
| "py_find (x # xs) sub =
     (if take (length sub) (x # xs) = sub then 0
      else (let r = py_find xs sub in if r < 0 then - 1 else r + 1))"

text \<open>
  The slices \<^verbatim>\<open>s[:i]\<close> and \<^verbatim>\<open>s[i:]\<close>: a negative index counts from the end, and an
  index out of range is clipped.
\<close>

definition slice_index :: "ustr \<Rightarrow> int \<Rightarrow> nat" where
  "slice_index s i = (if i < 0 then nat (int (length s) + i) else min (nat i) (length s))"

definition slice_to :: "ustr \<Rightarrow> int \<Rightarrow> ustr" where
  "slice_to s i = take (slice_index s i) s"

definition slice_from :: "ustr \<Rightarrow> int \<Rightarrow> ustr" where
  "slice_from s i = drop (slice_index s i) s"

section \<open>The two regular expressions\<close>

text \<open>
  A pattern is a sequence of items, matched from left to right by backtracking as
  \<^verbatim>\<open>re\<close> does: a greedy \<^verbatim>\<open>+\<close> or \<^verbatim>\<open>?\<close> first takes as much as it can and gives
  characters back, one at a time, when the rest of the pattern fails. The items are
  the ones the two patterns of the script use: a character class matched once, optionally
  or one or more times, and the parentheses of the capture group.
\<close>

datatype cls = Chr nat | NotChr nat | Space | NotSpace

fun cls_match :: "cls \<Rightarrow> nat \<Rightarrow> bool" where
  "cls_match (Chr c) x = (x = c)"
| "cls_match (NotChr c) x = (x \<noteq> c)"
| "cls_match Space x = is_space x"
| "cls_match NotSpace x = (\<not> is_space x)"

datatype item = One cls | Opt cls | Plus cls | GroupOpen | GroupClose

text \<open>
  \<open>backtrack p s opened g\<close> matches the pattern \<open>p\<close> at the front of \<open>s\<close>; \<open>opened\<close> is the
  input that remained when the group was opened, \<open>g\<close> the text captured by the group so
  far. The result is \<open>None\<close> when no way of matching succeeds, and otherwise the
  capture of the first way that does: what \<^verbatim>\<open>m.group(1)\<close> returns (Python's \<^verbatim>\<open>None\<close>
  for a group that took no part in the match is \<open>None\<close> here).
\<close>

fun backtrack :: "item list \<Rightarrow> ustr \<Rightarrow> ustr option \<Rightarrow> ustr option \<Rightarrow> ustr option option" where
  "backtrack [] s opened g = Some g"
| "backtrack (One c # p) [] opened g = None"
| "backtrack (One c # p) (x # xs) opened g =
     (if cls_match c x then backtrack p xs opened g else None)"
| "backtrack (Opt c # p) [] opened g = backtrack p [] opened g"
| "backtrack (Opt c # p) (x # xs) opened g =
     (if cls_match c x
      then (case backtrack p xs opened g of
              Some m \<Rightarrow> Some m
            | None \<Rightarrow> backtrack p (x # xs) opened g)
      else backtrack p (x # xs) opened g)"
| "backtrack (Plus c # p) [] opened g = None"
| "backtrack (Plus c # p) (x # xs) opened g =
     (if cls_match c x
      then (case backtrack (Plus c # p) xs opened g of
              Some m \<Rightarrow> Some m
            | None \<Rightarrow> backtrack p xs opened g)
      else None)"
| "backtrack (GroupOpen # p) s opened g = backtrack p s (Some s) g"
| "backtrack (GroupClose # p) s None g = backtrack p s None g"
| "backtrack (GroupClose # p) s (Some s0) g =
     backtrack p s None (Some (take (length s0 - length s) s0))"

text \<open>
  \<^verbatim>\<open>re.match(pattern, s)\<close> matches at the start of \<open>s\<close> only, so the \<^verbatim>\<open>^\<close> that opens
  both patterns adds nothing. The match object is represented by its \<^verbatim>\<open>group(1)\<close>.
\<close>

type_synonym match = "ustr option"

definition re_match :: "item list \<Rightarrow> ustr \<Rightarrow> match option" where
  "re_match p s = backtrack p s None None"

text \<open>\<^verbatim>\<open>r'^-\s+\*\*([^\*]+)/?\*\*'\<close>\<close>

definition dir_re :: "item list" where
  "dir_re = [One (Chr 45), Plus Space, One (Chr 42), One (Chr 42),
             GroupOpen, Plus (NotChr 42), GroupClose,
             Opt (Chr 47), One (Chr 42), One (Chr 42)]"

text \<open>\<^verbatim>\<open>r'^-\s+([^\s]+)\s+X'\<close>, where \<open>X\<close> is the em dash U+2014.\<close>

definition file_re :: "item list" where
  "file_re = [One (Chr 45), Plus Space,
              GroupOpen, Plus NotSpace, GroupClose,
              Plus Space, One (Chr EM_DASH)]"

section \<open>The platform: \<^verbatim>\<open>os.path\<close> and the file system\<close>

text \<open>
  \<^verbatim>\<open>os.path.join\<close> is the host's (\<^verbatim>\<open>posixpath\<close> or \<^verbatim>\<open>ntpath\<close>), so the script is
  modelled for any join function: it is a field of the environment, called as Python
  calls it, with a first path and the list of the others. \<^verbatim>\<open>os.path.exists\<close> asks the
  file system whether the path names anything; \<open>fs\<close> gives the kind of node a path
  leads to, and \<open>None\<close> when there is none. The module constant \<^verbatim>\<open>root_dir\<close> is a field
  as well, so that the theorems hold for every root.

  \<^verbatim>\<open>print\<close> writes to \<^verbatim>\<open>sys.stdout\<close>, and that can fail: the stream raises
  \<^verbatim>\<open>UnicodeEncodeError\<close> when its encoding has no code for a character of the text (a
  redirected standard output on Windows uses the ANSI code page), and \<^verbatim>\<open>OSError\<close> when
  the write itself fails. \<open>print_raises\<close> says, for what has been printed so far and the
  text to print, what the call raises on this host, and \<open>None\<close> when it returns.
\<close>

datatype node = RegularFile | Directory

datatype py_error = AttributeError | TypeError | UnicodeEncodeError | OSError

record env =
  root_dir :: ustr
  os_path_join :: "ustr \<Rightarrow> ustr list \<Rightarrow> ustr"
  fs :: "ustr \<Rightarrow> node option"
  print_raises :: "ustr list \<Rightarrow> ustr \<Rightarrow> py_error option"

definition os_path_exists :: "env \<Rightarrow> ustr \<Rightarrow> bool" where
  "os_path_exists e path = (case fs e path of None \<Rightarrow> False | Some n \<Rightarrow> True)"

text \<open>
  \<^verbatim>\<open>os.path.join(*current_path_parts, filename)\<close>: the first of the spread arguments is
  the path, the others follow; with an empty stack the filename is the only argument.
\<close>

definition join_star :: "env \<Rightarrow> ustr list \<Rightarrow> ustr \<Rightarrow> ustr" where
  "join_star e parts filename =
     (case parts of
        [] \<Rightarrow> os_path_join e filename []
      | a # p \<Rightarrow> os_path_join e a (p @ [filename]))"

text \<open>
  \<^verbatim>\<open>posixpath.join\<close>: a component that starts with the separator replaces what was
  joined so far; otherwise it is appended, after a separator unless the path is empty
  or ends with one.
\<close>

definition posix_join_step :: "ustr \<Rightarrow> ustr \<Rightarrow> ustr" where
  "posix_join_step path b =
     (if take 1 b = [47] then b
      else if path = [] then path @ b
      else if last path = 47 then path @ b
      else path @ [47] @ b)"

definition posixpath_join :: "ustr \<Rightarrow> ustr list \<Rightarrow> ustr" where
  "posixpath_join a p = foldl posix_join_step a p"

text \<open>
  \<^verbatim>\<open>print(s)\<close>: the text is added to what was printed, unless the stream raises.
\<close>

definition py_print :: "env \<Rightarrow> ustr list \<Rightarrow> ustr \<Rightarrow> py_error + ustr list" where
  "py_print e out s =
     (case print_raises e out s of
        Some err \<Rightarrow> Inl err
      | None \<Rightarrow> Inr (out @ [s]))"

text \<open>
  A standard output with a strict encoding: \<^verbatim>\<open>print\<close> writes the text and a newline, and
  raises \<^verbatim>\<open>UnicodeEncodeError\<close> when the encoding lacks one of the characters. UTF-8
  has every code point but the surrogates; ASCII has those below 128.
\<close>

definition encoding_raises :: "(nat \<Rightarrow> bool) \<Rightarrow> ustr list \<Rightarrow> ustr \<Rightarrow> py_error option" where
  "encoding_raises enc out s =
     (if list_all enc (s @ [10]) then None else Some UnicodeEncodeError)"

definition utf8_codec :: "nat \<Rightarrow> bool" where
  "utf8_codec c \<longleftrightarrow> c < 55296 \<or> (57343 < c \<and> c < 1114112)"

definition ascii_codec :: "nat \<Rightarrow> bool" where
  "ascii_codec c \<longleftrightarrow> c < 128"

section \<open>The script\<close>

text \<open>
  The state of the loop: the stack of open directories, \<^verbatim>\<open>(indent_level, directory_name)\<close>
  with the innermost last as in the Python list, the lines produced so far, and what
  \<^verbatim>\<open>print\<close> has written, one entry for each call.
\<close>

record state =
  dir_stack :: "(nat \<times> ustr) list"
  new_lines :: "ustr list"
  stdout :: "ustr list"

definition init :: state where
  "init = \<lparr>dir_stack = [], new_lines = [], stdout = []\<rparr>"

text \<open>\<^verbatim>\<open>while dir_stack and dir_stack[-1][0] >= indent: dir_stack.pop()\<close>\<close>

function pop_loop :: "nat \<Rightarrow> (nat \<times> ustr) list \<Rightarrow> (nat \<times> ustr) list" where
  "pop_loop indent stack =
     (if stack \<noteq> [] \<and> indent \<le> fst (last stack)
      then pop_loop indent (butlast stack)
      else stack)"
  by pat_completeness auto
termination
  by (relation "measure (\<lambda>(indent, stack). length stack)") auto

declare pop_loop.simps [simp del]

text \<open>\<^verbatim>\<open>indent = len(line) - len(line.lstrip())\<close>: the number of leading whitespace characters.\<close>

definition indent_of :: "ustr \<Rightarrow> nat" where
  "indent_of line = length line - length (lstrip line)"

text \<open>
  What the body can raise: \<^verbatim>\<open>group(1)\<close> is \<^verbatim>\<open>None\<close> for a group that took no part in
  the match, and then \<^verbatim>\<open>.rstrip\<close> raises \<^verbatim>\<open>AttributeError\<close> and \<^verbatim>\<open>os.path.join\<close>
  raises \<^verbatim>\<open>TypeError\<close>; and \<^verbatim>\<open>print\<close> raises what the stream raises. In the branch
  for a missing file \<^verbatim>\<open>print\<close> comes before \<^verbatim>\<open>new_lines.append\<close>, so an exception
  there leaves the line unappended.
\<close>

text \<open>The body of \<^verbatim>\<open>for line in lines\<close>.\<close>

definition loop_body :: "env \<Rightarrow> state \<Rightarrow> ustr \<Rightarrow> py_error + state" where
  "loop_body e st line =
     (let original_line = line;
          indent = indent_of line;
          stripped = strip line
      in case re_match dir_re stripped of
           Some dir_match \<Rightarrow>
             (case dir_match of
                None \<Rightarrow> Inl AttributeError
              | Some g \<Rightarrow>
                  let dirname = rstrip_chr 47 g;
                      stack = pop_loop indent (dir_stack st)
                  in Inr (st\<lparr>dir_stack := stack @ [(indent, dirname)],
                            new_lines := new_lines st @ [original_line]\<rparr>))
         | None \<Rightarrow>
             (case re_match file_re stripped of
                Some file_match \<Rightarrow>
                  (case file_match of
                     None \<Rightarrow> Inl TypeError
                   | Some filename \<Rightarrow>
                       let stack = pop_loop indent (dir_stack st);
                           current_path_parts = map snd stack;
                           relative_path = join_star e current_path_parts filename;
                           full_path = os_path_join e (root_dir e) [relative_path]
                       in if os_path_exists e full_path
                          then
                            let rel_path_fwd = replace_chr 92 47 relative_path;
                                pre = slice_to line (py_find line filename);
                                suf = slice_from line
                                        (py_find line filename + int (length filename));
                                new_line = pre @ u ''['' @ filename @ u ''](''
                                           @ rel_path_fwd @ u '')'' @ suf
                            in Inr (st\<lparr>dir_stack := stack,
                                      new_lines := new_lines st @ [new_line]\<rparr>)
                          else
                            (case py_print e (stdout st) (u ''File not found: '' @ full_path) of
                               Inl err \<Rightarrow> Inl err
                             | Inr printed \<Rightarrow>
                                 Inr (st\<lparr>dir_stack := stack,
                                        new_lines := new_lines st @ [original_line],
                                        stdout := printed\<rparr>)))
              | None \<Rightarrow> Inr (st\<lparr>new_lines := new_lines st @ [original_line]\<rparr>)))"

text \<open>The loop over the lines read from the inventory; an exception ends it.\<close>

fun for_loop :: "env \<Rightarrow> state \<Rightarrow> ustr list \<Rightarrow> py_error + state" where
  "for_loop e st [] = Inr st"
| "for_loop e st (line # lines) =
     (case loop_body e st line of
        Inl err \<Rightarrow> Inl err
      | Inr st' \<Rightarrow> for_loop e st' lines)"

text \<open>
  What the run hands to \<^verbatim>\<open>f.writelines\<close>: the file is opened for writing after the
  loop, so a run whose loop raises writes nothing and leaves the inventory as it was.
\<close>

definition written :: "env \<Rightarrow> ustr list \<Rightarrow> ustr list option" where
  "written e lines =
     (case for_loop e init lines of
        Inl err \<Rightarrow> None
      | Inr st \<Rightarrow> Some (new_lines st))"

text \<open>
  The whole run on the lines \<^verbatim>\<open>f.readlines()\<close> returned: the lines handed to
  \<^verbatim>\<open>f.writelines\<close> and the output of \<^verbatim>\<open>print\<close>, the completion message last, or
  the exception the run ends with. Opening, reading and writing the inventory file are
  left out: the run is a function of the lines read.
\<close>

definition main :: "env \<Rightarrow> ustr list \<Rightarrow> py_error + (ustr list \<times> ustr list)" where
  "main e lines =
     (case for_loop e init lines of
        Inl err \<Rightarrow> Inl err
      | Inr st \<Rightarrow>
          (case py_print e (stdout st) (u ''Inventory processing complete.'') of
             Inl err \<Rightarrow> Inl err
           | Inr printed \<Rightarrow> Inr (new_lines st, printed)))"

section \<open>Notions used to state the properties\<close>

text \<open>
  The invariant of the stack: the indent levels grow strictly from the bottom (the head
  of the list) to the top.
\<close>

definition increasing :: "(nat \<times> ustr) list \<Rightarrow> bool" where
  "increasing stack = sorted_wrt (<) (map fst stack)"

text \<open>
  The two patterns read without backtracking: the bullet, the longest run of whitespace,
  then the longest run of characters the group admits. They are proved equal to the
  backtracking matcher on the patterns of the script below, and are used in proofs only.
\<close>

definition span_dir :: "ustr \<Rightarrow> match option" where
  "span_dir s =
     (case s of
        [] \<Rightarrow> None
      | x # t \<Rightarrow>
          let r = dropWhile is_space t; r2 = drop 2 r
          in if x = 45 \<and> takeWhile is_space t \<noteq> [] \<and> take 2 r = [42, 42] \<and>
                takeWhile (\<lambda>x. x \<noteq> 42) r2 \<noteq> [] \<and>
                take 2 (dropWhile (\<lambda>x. x \<noteq> 42) r2) = [42, 42]
             then Some (Some (takeWhile (\<lambda>x. x \<noteq> 42) r2))
             else None)"

definition span_file :: "ustr \<Rightarrow> match option" where
  "span_file s =
     (case s of
        [] \<Rightarrow> None
      | x # t \<Rightarrow>
          let r = dropWhile is_space t;
              r2 = dropWhile (\<lambda>x. \<not> is_space x) r;
              r3 = dropWhile is_space r2
          in if x = 45 \<and> takeWhile is_space t \<noteq> [] \<and>
                takeWhile (\<lambda>x. \<not> is_space x) r \<noteq> [] \<and>
                takeWhile is_space r2 \<noteq> [] \<and> take 1 r3 = [EM_DASH]
             then Some (Some (takeWhile (\<lambda>x. \<not> is_space x) r))
             else None)"

text \<open>
  Hosts for examples: \<^verbatim>\<open>posixpath\<close>, a file system given by the list of its nodes,
  and a standard output in UTF-8 or in ASCII.
\<close>

definition posix_env :: "ustr \<Rightarrow> (ustr \<times> node) list \<Rightarrow> env" where
  "posix_env root nodes =
     \<lparr>root_dir = root, os_path_join = posixpath_join, fs = map_of nodes,
      print_raises = encoding_raises utf8_codec\<rparr>"

definition ascii_env :: "ustr \<Rightarrow> (ustr \<times> node) list \<Rightarrow> env" where
  "ascii_env root nodes =
     \<lparr>root_dir = root, os_path_join = posixpath_join, fs = map_of nodes,
      print_raises = encoding_raises ascii_codec\<rparr>"

section \<open>Facts about the string operations\<close>

lemma py_find_ge: "- 1 \<le> py_find s sub"
  by (induction s) (auto simp: Let_def)

lemma py_find_occurs: "s = p @ sub @ q \<Longrightarrow> 0 \<le> py_find s sub"
proof (induction s arbitrary: p)
  case Nil
  then show ?case by simp
next
  case (Cons x xs)
  show ?case
  proof (cases p)
    case Nil
    with Cons.prems show ?thesis by (metis append_Nil append_eq_conv_conj py_find.simps(2) order_refl)
  next
    case (Cons y ys)
    with Cons.prems have "xs = ys @ sub @ q" by simp
    then have "0 \<le> py_find xs sub" by (rule Cons.IH)
    then show ?thesis by (simp add: Let_def)
  qed
qed

lemma py_find_first:
  "0 \<le> py_find s sub \<Longrightarrow>
     take (length sub) (drop (nat (py_find s sub)) s) = sub \<and>
     (\<forall>j < nat (py_find s sub). take (length sub) (drop j s) \<noteq> sub)"
proof (induction s)
  case Nil
  then show ?case by (simp split: if_splits)
next
  case (Cons x xs)
  show ?case
  proof (cases "take (length sub) (x # xs) = sub")
    case True
    then show ?thesis by simp
  next
    case False
    with Cons.prems have nn: "0 \<le> py_find xs sub" and eq: "py_find (x # xs) sub = py_find xs sub + 1"
      by (auto simp: Let_def split: if_splits)
    from Cons.IH [OF nn] have a: "take (length sub) (drop (nat (py_find xs sub)) xs) = sub"
      and b: "\<forall>j < nat (py_find xs sub). take (length sub) (drop j xs) \<noteq> sub" by auto
    have n: "nat (py_find (x # xs) sub) = Suc (nat (py_find xs sub))" using nn eq by simp
    show ?thesis
    proof (intro conjI allI impI)
      show "take (length sub) (drop (nat (py_find (x # xs) sub)) (x # xs)) = sub"
        using a n by simp
    next
      fix j assume "j < nat (py_find (x # xs) sub)"
      then show "take (length sub) (drop j (x # xs)) \<noteq> sub"
        using b False n by (cases j) auto
    qed
  qed
qed

lemma slice_index_nat: "n \<le> length s \<Longrightarrow> slice_index s (int n) = n"
  by (simp add: slice_index_def)

lemma splice_at_find:
  assumes "s = p @ sub @ q"
  shows "s = slice_to s (py_find s sub) @ sub @ slice_from s (py_find s sub + int (length sub))"
    and "length (slice_to s (py_find s sub)) = nat (py_find s sub)"
    and "0 \<le> py_find s sub"
proof -
  let ?k = "nat (py_find s sub)"
  show nn: "0 \<le> py_find s sub" using assms by (rule py_find_occurs)
  from py_find_first [OF nn] have at: "take (length sub) (drop ?k s) = sub" by simp
  have "take (length sub) (drop (length p) s) = sub" using assms by simp
  with py_find_first [OF nn] have "\<not> length p < ?k" by blast
  moreover have "length p \<le> length s" using assms by simp
  ultimately have kl: "?k \<le> length s" by simp
  have "length (take (length sub) (drop ?k s)) = length sub" using at by simp
  then have klen: "?k + length sub \<le> length s" using kl by simp
  have ik: "py_find s sub = int ?k" using nn by simp
  have to: "slice_to s (py_find s sub) = take ?k s"
    unfolding slice_to_def by (subst ik, subst slice_index_nat [OF kl]) simp
  have "py_find s sub + int (length sub) = int (?k + length sub)" using nn by simp
  then have fr: "slice_from s (py_find s sub + int (length sub)) = drop (?k + length sub) s"
    unfolding slice_from_def using slice_index_nat [OF klen] by simp
  show "length (slice_to s (py_find s sub)) = ?k" using to kl by simp
  have "s = take ?k s @ drop ?k s" by simp
  also have "drop ?k s = take (length sub) (drop ?k s) @ drop (length sub) (drop ?k s)"
    by (simp only: append_take_drop_id)
  also have "drop (length sub) (drop ?k s) = drop (?k + length sub) s"
    by (simp add: add.commute)
  finally have "s = take ?k s @ sub @ drop (?k + length sub) s"
    using at by simp
  then show "s = slice_to s (py_find s sub) @ sub @ slice_from s (py_find s sub + int (length sub))"
    unfolding to fr .
qed

lemma strip_occurs: "\<exists>a b. line = a @ strip line @ b"
proof -
  have 1: "line = takeWhile is_space line @ lstrip line"
    by (simp add: lstrip_def)
  have 2: "lstrip line = strip line @ rev (takeWhile is_space (rev (lstrip line)))"
    unfolding strip_def rstrip_def
    by (metis rev_append rev_rev_ident takeWhile_dropWhile_id)
  from 1 2 have "line = takeWhile is_space line @ strip line @ rev (takeWhile is_space (rev (lstrip line)))"
    by simp
  then show ?thesis by blast
qed

section \<open>The patterns, read deterministically\<close>

lemma backtrack_Plus_greedy:
  assumes "\<And>x xs. cls_match c x \<Longrightarrow> backtrack p (x # xs) opened g = None"
  shows "backtrack (Plus c # p) s opened g =
           (if takeWhile (cls_match c) s = [] then None
            else backtrack p (dropWhile (cls_match c) s) opened g)"
proof (induction s)
  case Nil
  then show ?case by simp
next
  case (Cons x xs)
  show ?case
  proof (cases "cls_match c x")
    case False
    then show ?thesis by simp
  next
    case True
    show ?thesis
    proof (cases xs)
      case Nil
      with True show ?thesis by simp
    next
      case (Cons y ys)
      show ?thesis
      proof (cases "cls_match c y")
        case False
        with True Cons Cons.IH show ?thesis by simp
      next
        case yes: True
        then have "backtrack p xs opened g = None" using assms Cons by simp
        with True yes Cons Cons.IH show ?thesis by (simp split: option.splits)
      qed
    qed
  qed
qed

lemma capture_span: "take (length s - length (dropWhile P s)) s = takeWhile P s"
proof -
  have "length s - length (dropWhile P s) = length (takeWhile P s)"
    by (metis add_diff_cancel_right' length_append takeWhile_dropWhile_id)
  then show ?thesis
    by (metis append_eq_conv_conj takeWhile_dropWhile_id)
qed

lemma not_space_star [simp]: "\<not> is_space 42" and not_space_dash [simp]: "\<not> is_space EM_DASH"
  and not_space_hyphen [simp]: "\<not> is_space 45"
  by (simp_all add: is_space_def EM_DASH_def)

lemma dir_name_tail:
  "backtrack [GroupClose, Opt (Chr 47), One (Chr 42), One (Chr 42)] s (Some s0) g =
     (if take 2 s = [42, 42] \<or> take 3 s = [47, 42, 42]
      then Some (Some (take (length s0 - length s) s0)) else None)"
proof (cases s)
  case Nil
  then show ?thesis by simp
next
  case c1: (Cons a s1)
  show ?thesis
  proof (cases s1)
    case Nil
    with c1 show ?thesis by simp
  next
    case c2: (Cons b s2)
    show ?thesis
    proof (cases s2)
      case Nil
      with c1 c2 show ?thesis by simp
    next
      case (Cons c s3)
      with c1 c2 show ?thesis by simp
    qed
  qed
qed

lemma dir_name_group:
  "backtrack [Plus (NotChr 42), GroupClose, Opt (Chr 47), One (Chr 42), One (Chr 42)] s (Some s0) g =
     (if takeWhile (\<lambda>x. x \<noteq> 42) s \<noteq> [] \<and> take 2 (dropWhile (\<lambda>x. x \<noteq> 42) s) = [42, 42]
      then Some (Some (take (length s0 - length (dropWhile (\<lambda>x. x \<noteq> 42) s)) s0))
      else None)"
proof (induction s)
  case Nil
  then show ?case by simp
next
  case (Cons x xs)
  show ?case
  proof (cases "x = 42")
    case True
    then show ?thesis by simp
  next
    case False
    have step: "backtrack [Plus (NotChr 42), GroupClose, Opt (Chr 47), One (Chr 42), One (Chr 42)] (x # xs) (Some s0) g =
      (case backtrack [Plus (NotChr 42), GroupClose, Opt (Chr 47), One (Chr 42), One (Chr 42)] xs (Some s0) g of
         Some m \<Rightarrow> Some m
       | None \<Rightarrow> backtrack [GroupClose, Opt (Chr 47), One (Chr 42), One (Chr 42)] xs (Some s0) g)"
      using False by simp
    show ?thesis
    proof (cases "xs = [] \<or> hd xs = 42")
      case True
      then have "takeWhile (\<lambda>x. x \<noteq> 42) xs = []" and "dropWhile (\<lambda>x. x \<noteq> 42) xs = xs"
        and "take 3 xs \<noteq> [47, 42, 42]"
        by (cases xs; auto)+
      then show ?thesis using False
        unfolding step Cons.IH dir_name_tail by simp
    next
      case nonstar: False
      then obtain y ys where xs: "xs = y # ys" and y: "y \<noteq> 42" by (cases xs) auto
      have t2: "take 2 xs \<noteq> [42, 42]" using xs y by simp
      have "take 3 xs = [47, 42, 42] \<Longrightarrow> take 2 (dropWhile (\<lambda>x. x \<noteq> 42) xs) = [42, 42]"
        using xs by (cases ys; cases "tl ys") auto
      then show ?thesis using False xs y t2
        unfolding step Cons.IH dir_name_tail by auto
    qed
  qed
qed

lemma take2_cases: "take 2 r = [a, b] \<longleftrightarrow> (\<exists>t. r = a # b # t)"
  by (cases r; cases "tl r") auto

lemma two_stars:
  "backtrack (One (Chr 42) # One (Chr 42) # p) r op g =
     (if take 2 r = [42, 42] then backtrack p (drop 2 r) op g else None)"
proof (cases r)
  case Nil
  then show ?thesis by simp
next
  case c1: (Cons a r1)
  then show ?thesis by (cases r1) auto
qed

lemma re_match_dir_re: "re_match dir_re s = span_dir s"
proof (cases s)
  case Nil
  then show ?thesis by (simp add: re_match_def dir_re_def span_dir_def)
next
  case (Cons x t)
  have sp: "\<And>y ys op g. cls_match Space y \<Longrightarrow>
      backtrack [One (Chr 42), One (Chr 42), GroupOpen, Plus (NotChr 42), GroupClose,
                 Opt (Chr 47), One (Chr 42), One (Chr 42)] (y # ys) op g = None"
    by auto
  have sc: "cls_match Space = is_space" by (rule ext) simp
  show ?thesis
  proof (cases "x = 45")
    case False
    with Cons show ?thesis by (simp add: re_match_def dir_re_def span_dir_def)
  next
    case True
    have "re_match dir_re s = backtrack [Plus Space, One (Chr 42), One (Chr 42), GroupOpen,
        Plus (NotChr 42), GroupClose, Opt (Chr 47), One (Chr 42), One (Chr 42)] t None None"
      using Cons True by (simp add: re_match_def dir_re_def)
    also have "\<dots> = (if takeWhile is_space t = [] then None
        else backtrack [One (Chr 42), One (Chr 42), GroupOpen,
        Plus (NotChr 42), GroupClose, Opt (Chr 47), One (Chr 42), One (Chr 42)] (dropWhile is_space t) None None)"
      by (subst backtrack_Plus_greedy [OF sp]) (simp_all add: sc)
    also have "\<dots> = span_dir s"
      using Cons True
      unfolding two_stars backtrack.simps(8) dir_name_group capture_span span_dir_def
      by (simp add: Let_def)
    finally show ?thesis .
  qed
qed

lemma dash_tail:
  "backtrack [Plus Space, One (Chr EM_DASH)] r op g =
     (if takeWhile is_space r \<noteq> [] \<and> take 1 (dropWhile is_space r) = [EM_DASH]
      then Some g else None)"
proof -
  have sc: "cls_match Space = is_space" by (rule ext) simp
  have p3: "\<And>y ys. cls_match Space y \<Longrightarrow> backtrack [One (Chr EM_DASH)] (y # ys) op g = None"
    by auto
  have last: "\<And>r. backtrack [One (Chr EM_DASH)] r op g = (if take 1 r = [EM_DASH] then Some g else None)"
    subgoal for r by (cases r) auto
    done
  show ?thesis
    by (subst backtrack_Plus_greedy [OF p3]) (simp_all add: sc last)
qed

lemma file_name_group:
  "backtrack [Plus NotSpace, GroupClose, Plus Space, One (Chr EM_DASH)] r (Some s0) g =
     (if takeWhile (\<lambda>x. \<not> is_space x) r \<noteq> [] \<and>
         takeWhile is_space (dropWhile (\<lambda>x. \<not> is_space x) r) \<noteq> [] \<and>
         take 1 (dropWhile is_space (dropWhile (\<lambda>x. \<not> is_space x) r)) = [EM_DASH]
      then Some (Some (take (length s0 - length (dropWhile (\<lambda>x. \<not> is_space x) r)) s0))
      else None)"
proof -
  have nc: "cls_match NotSpace = (\<lambda>x. \<not> is_space x)" by (rule ext) simp
  have p2: "\<And>y ys. cls_match NotSpace y \<Longrightarrow>
      backtrack [GroupClose, Plus Space, One (Chr EM_DASH)] (y # ys) (Some s0) g = None"
    by auto
  show ?thesis
    by (subst backtrack_Plus_greedy [OF p2]) (simp_all add: nc dash_tail)
qed

lemma re_match_file_re: "re_match file_re s = span_file s"
proof (cases s)
  case Nil
  then show ?thesis by (simp add: re_match_def file_re_def span_file_def)
next
  case (Cons x t)
  have sc: "cls_match Space = is_space" by (rule ext) simp
  have p1: "\<And>y ys op g. cls_match Space y \<Longrightarrow>
      backtrack [GroupOpen, Plus NotSpace, GroupClose, Plus Space, One (Chr EM_DASH)] (y # ys) op g = None"
    by auto
  show ?thesis
  proof (cases "x = 45")
    case False
    with Cons show ?thesis by (simp add: re_match_def file_re_def span_file_def)
  next
    case True
    have "re_match file_re s = backtrack [Plus Space, GroupOpen, Plus NotSpace, GroupClose, Plus Space, One (Chr EM_DASH)] t None None"
      using Cons True by (simp add: re_match_def file_re_def)
    also have "\<dots> = (if takeWhile is_space t = [] then None
        else backtrack [GroupOpen, Plus NotSpace, GroupClose, Plus Space, One (Chr EM_DASH)] (dropWhile is_space t) None None)"
      by (subst backtrack_Plus_greedy [OF p1]) (simp_all add: sc)
    also have "\<dots> = span_file s"
      using Cons True
      unfolding backtrack.simps(8) file_name_group capture_span span_file_def
      by (simp add: Let_def)
    finally show ?thesis .
  qed
qed

lemma dir_match_group: "re_match dir_re s = Some m \<Longrightarrow> \<exists>g. m = Some g"
  by (auto simp: re_match_dir_re span_dir_def Let_def split: list.splits if_splits)

lemma file_match_group: "re_match file_re s = Some m \<Longrightarrow> \<exists>f. m = Some f"
  by (auto simp: re_match_file_re span_file_def Let_def split: list.splits if_splits)

lemma file_match_occurs:
  assumes "re_match file_re s = Some (Some f)"
  shows "\<exists>p q. s = p @ f @ q"
proof -
  from assms obtain x t where s: "s = x # t"
    and f: "f = takeWhile (\<lambda>x. \<not> is_space x) (dropWhile is_space t)"
    by (auto simp: re_match_file_re span_file_def Let_def split: list.splits if_splits)
  have "t = takeWhile is_space t @ f @ dropWhile (\<lambda>x. \<not> is_space x) (dropWhile is_space t)"
    unfolding f by simp
  then have "s = (x # takeWhile is_space t) @ f @ dropWhile (\<lambda>x. \<not> is_space x) (dropWhile is_space t)"
    using s by simp
  then show ?thesis by blast
qed

lemma filename_in_line:
  assumes "re_match file_re (strip line) = Some (Some f)"
  shows "\<exists>p q. line = p @ f @ q"
proof -
  from file_match_occurs [OF assms] obtain p q where "strip line = p @ f @ q" by blast
  moreover from strip_occurs obtain a b where "line = a @ strip line @ b" by blast
  ultimately have "line = (a @ p) @ f @ (q @ b)" by simp
  then show ?thesis by blast
qed

section \<open>The stack\<close>

lemma pop_loop_Nil: "pop_loop i [] = []"
  by (simp add: pop_loop.simps)

lemma pop_loop_snoc:
  "pop_loop i (s @ [x]) = (if i \<le> fst x then pop_loop i s else s @ [x])"
  by (subst pop_loop.simps) simp

lemma pop_loop_eq: "pop_loop i s = rev (dropWhile (\<lambda>x. i \<le> fst x) (rev s))"
  by (induction s rule: rev_induct) (simp_all add: pop_loop_Nil pop_loop_snoc)

lemma pop_loop_prefix: "\<exists>t. s = pop_loop i s @ t"
proof (induction s rule: rev_induct)
  case Nil
  then show ?case by (simp add: pop_loop_Nil)
next
  case (snoc x xs)
  then obtain t where "xs = pop_loop i xs @ t" by blast
  then have "xs @ [x] = pop_loop i xs @ (t @ [x])" by simp
  then have "\<exists>t'. xs @ [x] = pop_loop i xs @ t'" by (rule exI)
  then show ?case by (simp add: pop_loop_snoc)
qed

lemma pop_loop_sorted:
  "sorted_wrt (<) (map fst s) \<Longrightarrow> pop_loop i s = takeWhile (\<lambda>x. fst x < i) s"
proof (induction s rule: rev_induct)
  case Nil
  then show ?case by (simp add: pop_loop_Nil)
next
  case (snoc x xs)
  then have srt: "sorted_wrt (<) (map fst xs)" and less: "\<forall>y\<in>set xs. fst y < fst x"
    by (auto simp: sorted_wrt_append)
  show ?case
  proof (cases "i \<le> fst x")
    case True
    then show ?thesis using snoc.IH srt by (simp add: pop_loop_snoc takeWhile_tail)
  next
    case False
    with less have "\<forall>y\<in>set xs. fst y < i" by auto
    then have "takeWhile (\<lambda>x. fst x < i) xs = xs" by simp
    with False show ?thesis by (simp add: pop_loop_snoc takeWhile_append2)
  qed
qed

lemma pop_loop_below:
  "sorted_wrt (<) (map fst s) \<Longrightarrow> \<forall>x\<in>set (pop_loop i s). fst x < i"
  by (auto simp: pop_loop_sorted dest: set_takeWhileD)

lemma pop_loop_keeps_sorted:
  "sorted_wrt (<) (map fst s) \<Longrightarrow> sorted_wrt (<) (map fst (pop_loop i s))"
  using pop_loop_prefix [of s i] by (metis map_append sorted_wrt_append)

section \<open>The branches of the loop body\<close>

lemma loop_body_dir:
  assumes "re_match dir_re (strip line) = Some m"
  shows "\<exists>g. m = Some g \<and>
           loop_body e st line =
             Inr (st\<lparr>dir_stack := pop_loop (indent_of line) (dir_stack st)
                                     @ [(indent_of line, rstrip_chr 47 g)],
                      new_lines := new_lines st @ [line]\<rparr>)"
proof -
  from dir_match_group [OF assms] obtain g where "m = Some g" by blast
  with assms show ?thesis by (simp add: loop_body_def Let_def)
qed

lemma loop_body_other:
  assumes "re_match dir_re (strip line) = None" and "re_match file_re (strip line) = None"
  shows "loop_body e st line = Inr (st\<lparr>new_lines := new_lines st @ [line]\<rparr>)"
  using assms by (simp add: loop_body_def Let_def)

lemma loop_body_missing:
  assumes "re_match dir_re (strip line) = None"
    and "re_match file_re (strip line) = Some (Some filename)"
    and "\<not> os_path_exists e (os_path_join e (root_dir e)
            [join_star e (map snd (pop_loop (indent_of line) (dir_stack st))) filename])"
  shows "loop_body e st line =
           (case print_raises e (stdout st) (u ''File not found: '' @
                   os_path_join e (root_dir e)
                     [join_star e (map snd (pop_loop (indent_of line) (dir_stack st))) filename]) of
              Some err \<Rightarrow> Inl err
            | None \<Rightarrow>
                Inr (st\<lparr>dir_stack := pop_loop (indent_of line) (dir_stack st),
                       new_lines := new_lines st @ [line],
                       stdout := stdout st @ [u ''File not found: '' @
                         os_path_join e (root_dir e)
                           [join_star e (map snd (pop_loop (indent_of line) (dir_stack st))) filename]]\<rparr>))"
  using assms by (simp add: loop_body_def py_print_def Let_def split: option.splits)

lemma loop_body_found:
  assumes "re_match dir_re (strip line) = None"
    and "re_match file_re (strip line) = Some (Some filename)"
    and "os_path_exists e (os_path_join e (root_dir e)
            [join_star e (map snd (pop_loop (indent_of line) (dir_stack st))) filename])"
  shows "loop_body e st line =
           Inr (st\<lparr>dir_stack := pop_loop (indent_of line) (dir_stack st),
                    new_lines := new_lines st @
                      [slice_to line (py_find line filename) @ u ''['' @ filename @ u ''](''
                       @ replace_chr 92 47
                           (join_star e (map snd (pop_loop (indent_of line) (dir_stack st))) filename)
                       @ u '')''
                       @ slice_from line (py_find line filename + int (length filename))]\<rparr>)"
  using assms by (simp add: loop_body_def Let_def)

text \<open>
  The body raises in one place only: \<^verbatim>\<open>print\<close> in the branch for a missing file.
\<close>

lemma loop_body_raises:
  assumes "loop_body e st line = Inl err"
  shows "re_match dir_re (strip line) = None \<and>
         (\<exists>filename. re_match file_re (strip line) = Some (Some filename) \<and>
            \<not> os_path_exists e (os_path_join e (root_dir e)
                [join_star e (map snd (pop_loop (indent_of line) (dir_stack st))) filename]) \<and>
            print_raises e (stdout st) (u ''File not found: '' @
                os_path_join e (root_dir e)
                  [join_star e (map snd (pop_loop (indent_of line) (dir_stack st))) filename])
              = Some err)"
proof (cases "re_match dir_re (strip line)")
  case (Some m)
  from loop_body_dir [OF this, of e st] assms show ?thesis by auto
next
  case None
  show ?thesis
  proof (cases "re_match file_re (strip line)")
    case n2: None
    from loop_body_other [OF None n2, of e st] assms show ?thesis by simp
  next
    case (Some m)
    with file_match_group obtain f where f: "re_match file_re (strip line) = Some (Some f)"
      by blast
    show ?thesis
    proof (cases "os_path_exists e (os_path_join e (root_dir e)
            [join_star e (map snd (pop_loop (indent_of line) (dir_stack st))) f])")
      case True
      from loop_body_found [OF None f True] assms show ?thesis by simp
    next
      case False
      from loop_body_missing [OF None f False] assms None f False show ?thesis
        by (auto split: option.splits)
    qed
  qed
qed

lemma loop_body_returns:
  assumes "\<And>out s. print_raises e out s = None"
  shows "\<exists>st'. loop_body e st line = Inr st'"
proof (cases "loop_body e st line")
  case (Inl err)
  from loop_body_raises [OF this] assms show ?thesis by simp
next
  case (Inr st')
  then show ?thesis by blast
qed

lemma loop_body_appends_one:
  assumes "loop_body e st line = Inr st'"
  shows "\<exists>out. new_lines st' = new_lines st @ [out]"
proof (cases "re_match dir_re (strip line)")
  case (Some m)
  from loop_body_dir [OF this, of e st] assms show ?thesis by auto
next
  case None
  show ?thesis
  proof (cases "re_match file_re (strip line)")
    case n2: None
    with None assms show ?thesis by (auto simp: loop_body_other)
  next
    case (Some m)
    with file_match_group obtain f where f: "re_match file_re (strip line) = Some (Some f)"
      by blast
    show ?thesis
      using loop_body_found [OF None f, of e st] loop_body_missing [OF None f, of e st] assms
      by (cases "os_path_exists e (os_path_join e (root_dir e)
            [join_star e (map snd (pop_loop (indent_of line) (dir_stack st))) f])")
         (auto split: option.splits)
  qed
qed

lemma for_loop_append:
  "for_loop e st (xs @ ys) =
     (case for_loop e st xs of Inl err \<Rightarrow> Inl err | Inr st' \<Rightarrow> for_loop e st' ys)"
  by (induction xs arbitrary: st) (auto split: sum.splits)

lemma for_loop_Cons_Inr:
  assumes "for_loop e st (l # ls) = Inr fin"
  shows "\<exists>st1. loop_body e st l = Inr st1 \<and> for_loop e st1 ls = Inr fin"
  using assms by (cases "loop_body e st l") auto

lemma for_loop_append_Inr:
  assumes "for_loop e st (xs @ ys) = Inr fin"
  shows "\<exists>mid. for_loop e st xs = Inr mid \<and> for_loop e mid ys = Inr fin"
  using assms by (cases "for_loop e st xs") (auto simp: for_loop_append)

lemma for_loop_returns:
  assumes "\<And>out s. print_raises e out s = None"
  shows "\<exists>st'. for_loop e st lines = Inr st'"
proof (induction lines arbitrary: st)
  case Nil
  then show ?case by simp
next
  case (Cons l ls)
  from loop_body_returns [OF assms] obtain st1 where "loop_body e st l = Inr st1" by blast
  with Cons [of st1] show ?case by simp
qed

lemma for_loop_snoc:
  assumes "for_loop e st xs = Inr st1"
  shows "for_loop e st (xs @ [x]) = loop_body e st1 x"
  using assms by (simp add: for_loop_append split: sum.splits)

lemma increasing_pop:
  assumes "increasing s"
  shows "increasing (pop_loop i s)" and "\<forall>x\<in>set (pop_loop i s). fst x < i"
  using assms pop_loop_keeps_sorted pop_loop_below by (auto simp: increasing_def)

lemma increasing_push:
  assumes "increasing s" and "\<forall>x\<in>set s. fst x < i"
  shows "increasing (s @ [(i, n)])"
  using assms by (auto simp: increasing_def sorted_wrt_append)

lemma loop_body_stack:
  assumes "loop_body e st line = Inr st'"
  shows "re_match dir_re (strip line) = Some (Some g) \<Longrightarrow>
           dir_stack st' = pop_loop (indent_of line) (dir_stack st)
                             @ [(indent_of line, rstrip_chr 47 g)]"
    and "re_match dir_re (strip line) = None \<Longrightarrow> re_match file_re (strip line) = Some m \<Longrightarrow>
           dir_stack st' = pop_loop (indent_of line) (dir_stack st)"
    and "re_match dir_re (strip line) = None \<Longrightarrow> re_match file_re (strip line) = None \<Longrightarrow>
           dir_stack st' = dir_stack st"
proof -
  show "dir_stack st' = pop_loop (indent_of line) (dir_stack st)
                             @ [(indent_of line, rstrip_chr 47 g)]"
    if "re_match dir_re (strip line) = Some (Some g)"
    using loop_body_dir [OF that, of e st] assms by auto
  show "dir_stack st' = dir_stack st"
    if "re_match dir_re (strip line) = None" "re_match file_re (strip line) = None"
    using loop_body_other [OF that, of e st] assms by auto
  show "dir_stack st' = pop_loop (indent_of line) (dir_stack st)"
    if d: "re_match dir_re (strip line) = None" and f: "re_match file_re (strip line) = Some m"
  proof -
    from file_match_group [OF f] f obtain fn where fn: "re_match file_re (strip line) = Some (Some fn)"
      by blast
    show ?thesis
      using loop_body_found [OF d fn, of e st] loop_body_missing [OF d fn, of e st] assms
      by (cases "os_path_exists e (os_path_join e (root_dir e)
            [join_star e (map snd (pop_loop (indent_of line) (dir_stack st))) fn])")
         (auto split: option.splits)
  qed
qed

lemma loop_body_increasing:
  assumes "increasing (dir_stack st)" and "loop_body e st line = Inr st'"
  shows "increasing (dir_stack st')"
proof (cases "re_match dir_re (strip line)")
  case (Some m)
  with dir_match_group obtain g where g: "re_match dir_re (strip line) = Some (Some g)" by blast
  show ?thesis
    unfolding loop_body_stack(1) [OF assms(2) g]
    using increasing_pop [OF assms(1)] by (intro increasing_push) auto
next
  case None
  show ?thesis
  proof (cases "re_match file_re (strip line)")
    case n2: None
    show ?thesis unfolding loop_body_stack(3) [OF assms(2) None n2] by (rule assms(1))
  next
    case (Some m)
    show ?thesis unfolding loop_body_stack(2) [OF assms(2) None Some]
      by (rule increasing_pop(1) [OF assms(1)])
  qed
qed

lemma for_loop_increasing:
  "increasing (dir_stack st) \<Longrightarrow> for_loop e st lines = Inr st' \<Longrightarrow> increasing (dir_stack st')"
proof (induction lines arbitrary: st)
  case Nil
  then show ?case by simp
next
  case (Cons l ls)
  from for_loop_Cons_Inr [OF Cons.prems(2)] obtain st1 where
    s1: "loop_body e st l = Inr st1" and "for_loop e st1 ls = Inr st'" by blast
  moreover have "increasing (dir_stack st1)" using loop_body_increasing [OF Cons.prems(1) s1] .
  ultimately show ?case using Cons.IH by blast
qed

lemma increasing_init: "increasing (dir_stack init)"
  by (simp add: init_def increasing_def)

lemma pop_loop_above:
  assumes "L < i"
  shows "\<exists>D'. pop_loop i (A @ (L, n) # D) = A @ (L, n) # D' \<and> set D' \<subseteq> set D"
proof (induction D rule: rev_induct)
  case Nil
  have "pop_loop i (A @ [(L, n)]) = A @ [(L, n)]"
    using assms by (simp add: pop_loop_snoc)
  then show ?case by simp
next
  case (snoc x xs)
  then obtain D' where D': "pop_loop i (A @ (L, n) # xs) = A @ (L, n) # D'" "set D' \<subseteq> set xs"
    by blast
  have eq: "A @ (L, n) # xs @ [x] = (A @ (L, n) # xs) @ [x]" by simp
  show ?case
  proof (cases "i \<le> fst x")
    case True
    then have "pop_loop i (A @ (L, n) # xs @ [x]) = A @ (L, n) # D'"
      unfolding eq pop_loop_snoc using D' by simp
    with D' show ?thesis by auto
  next
    case False
    then have "pop_loop i (A @ (L, n) # xs @ [x]) = A @ (L, n) # xs @ [x]"
      unfolding eq pop_loop_snoc by simp
    then show ?thesis by blast
  qed
qed

lemma deeper_line_keeps:
  assumes st: "dir_stack st = A @ (L, n) # D" and D: "\<forall>x\<in>set D. L < fst x"
    and deep: "re_match dir_re (strip l) \<noteq> None \<or> re_match file_re (strip l) \<noteq> None \<longrightarrow> L < indent_of l"
    and step: "loop_body e st l = Inr st'"
  shows "\<exists>D'. dir_stack st' = A @ (L, n) # D' \<and> (\<forall>x\<in>set D'. L < fst x)"
proof (cases "re_match dir_re (strip l)")
  case (Some m)
  with dir_match_group obtain g where g: "re_match dir_re (strip l) = Some (Some g)" by blast
  with deep have "L < indent_of l" by simp
  from pop_loop_above [OF this, of A n D] obtain D' where
    D': "pop_loop (indent_of l) (A @ (L, n) # D) = A @ (L, n) # D'" "set D' \<subseteq> set D" by blast
  have "dir_stack st' = A @ (L, n) # (D' @ [(indent_of l, rstrip_chr 47 g)])"
    unfolding loop_body_stack(1) [OF step g] st D' by simp
  moreover have "\<forall>x\<in>set (D' @ [(indent_of l, rstrip_chr 47 g)]). L < fst x"
    using D' D \<open>L < indent_of l\<close> by auto
  ultimately show ?thesis by blast
next
  case None
  show ?thesis
  proof (cases "re_match file_re (strip l)")
    case n2: None
    show ?thesis unfolding loop_body_stack(3) [OF step None n2] using st D by blast
  next
    case (Some m)
    with deep have "L < indent_of l" by simp
    from pop_loop_above [OF this, of A n D] obtain D' where
      D': "pop_loop (indent_of l) (A @ (L, n) # D) = A @ (L, n) # D'" "set D' \<subseteq> set D" by blast
    have "dir_stack st' = A @ (L, n) # D'"
      unfolding loop_body_stack(2) [OF step None Some] st D' by simp
    moreover have "\<forall>x\<in>set D'. L < fst x" using D' D by auto
    ultimately show ?thesis by blast
  qed
qed

lemma deeper_lines_keep:
  assumes "dir_stack st = A @ (L, n) # D" and "\<forall>x\<in>set D. L < fst x"
    and "\<forall>l\<in>set mid. re_match dir_re (strip l) \<noteq> None \<or> re_match file_re (strip l) \<noteq> None
            \<longrightarrow> L < indent_of l"
    and "for_loop e st mid = Inr st'"
  shows "\<exists>D'. dir_stack st' = A @ (L, n) # D' \<and> (\<forall>x\<in>set D'. L < fst x)"
  using assms
proof (induction mid arbitrary: st D)
  case Nil
  then show ?case by auto
next
  case (Cons l ls)
  from for_loop_Cons_Inr [OF Cons.prems(4)] obtain st1 where
    s1: "loop_body e st l = Inr st1" and rest: "for_loop e st1 ls = Inr st'" by blast
  from Cons.prems(3) have deep: "re_match dir_re (strip l) \<noteq> None \<or> re_match file_re (strip l) \<noteq> None
            \<longrightarrow> L < indent_of l" by simp
  from deeper_line_keeps [OF Cons.prems(1) Cons.prems(2) deep s1]
  obtain D1 where D1: "dir_stack st1 = A @ (L, n) # D1" "\<forall>x\<in>set D1. L < fst x" by blast
  from Cons.prems(3) have "\<forall>l\<in>set ls. re_match dir_re (strip l) \<noteq> None \<or> re_match file_re (strip l) \<noteq> None
            \<longrightarrow> L < indent_of l" by simp
  from Cons.IH [OF D1 this rest] show ?case .
qed

lemma pop_loop_idem: "pop_loop i (pop_loop i s) = pop_loop i s"
  by (induction s rule: rev_induct) (auto simp: pop_loop_Nil pop_loop_snoc)

section \<open>Evaluation on concrete inputs\<close>

lemmas eval_defs = u_def EM_DASH_def is_space_def lstrip_def rstrip_def strip_def rstrip_chr_def
  replace_chr_def slice_index_def slice_to_def slice_from_def re_match_def dir_re_def file_re_def
  os_path_exists_def join_star_def posix_join_step_def posixpath_join_def init_def indent_of_def
  loop_body_def main_def written_def posix_env_def ascii_env_def py_print_def encoding_raises_def
  utf8_codec_def ascii_codec_def pop_loop_eq Let_def

lemma replace_chr_removes: "a \<noteq> b \<Longrightarrow> a \<notin> set (replace_chr a b s)"
  by (auto simp: replace_chr_def)

lemma for_loop_length:
  "for_loop e st lines = Inr fin \<Longrightarrow> length (new_lines fin) = length (new_lines st) + length lines"
proof (induction lines arbitrary: st)
  case Nil
  then show ?case by simp
next
  case (Cons l ls)
  from for_loop_Cons_Inr [OF Cons.prems] obtain st1 where
    s1: "loop_body e st l = Inr st1" and rest: "for_loop e st1 ls = Inr fin" by blast
  from loop_body_appends_one [OF s1] have "length (new_lines st1) = Suc (length (new_lines st))"
    by auto
  moreover from rest have "length (new_lines fin) = length (new_lines st1) + length ls"
    by (rule Cons.IH)
  ultimately show ?case by simp
qed

lemma for_loop_new_lines:
  "for_loop e st lines = Inr fin \<Longrightarrow>
     \<exists>outs. new_lines fin = new_lines st @ outs \<and> length outs = length lines"
proof (induction lines arbitrary: st)
  case Nil
  then show ?case by simp
next
  case (Cons l ls)
  from for_loop_Cons_Inr [OF Cons.prems] obtain st1 where
    s1: "loop_body e st l = Inr st1" and rest: "for_loop e st1 ls = Inr fin" by blast
  from loop_body_appends_one [OF s1] obtain x where x: "new_lines st1 = new_lines st @ [x]"
    by blast
  from Cons.IH [OF rest] obtain outs where
    "new_lines fin = new_lines st1 @ outs" "length outs = length ls" by blast
  with x have "new_lines fin = new_lines st @ (x # outs) \<and> length (x # outs) = length (l # ls)"
    by simp
  then show ?case by blast
qed

lemma for_loop_nth:
  assumes run: "for_loop e init lines = Inr fin" and i: "i < length lines"
  shows "\<exists>sti sti'. for_loop e init (take i lines) = Inr sti \<and>
           new_lines sti = take i (new_lines fin) \<and>
           loop_body e sti (lines ! i) = Inr sti' \<and>
           new_lines sti' = take i (new_lines fin) @ [new_lines fin ! i]"
proof -
  have split: "lines = take i lines @ (lines ! i # drop (Suc i) lines)"
    using i by (simp add: id_take_nth_drop [symmetric])
  have "for_loop e init (take i lines @ (lines ! i # drop (Suc i) lines)) = Inr fin"
    using run split by simp
  from for_loop_append_Inr [OF this] obtain sti where
    sti: "for_loop e init (take i lines) = Inr sti"
    and "for_loop e sti (lines ! i # drop (Suc i) lines) = Inr fin" by blast
  from for_loop_Cons_Inr [OF this(2)] obtain sti' where
    sti': "loop_body e sti (lines ! i) = Inr sti'"
    and rest: "for_loop e sti' (drop (Suc i) lines) = Inr fin" by blast
  from for_loop_new_lines [OF sti] obtain o1 where
    o1: "new_lines sti = o1" "length o1 = i"
    using i by (auto simp: init_def)
  from loop_body_appends_one [OF sti'] obtain x where x: "new_lines sti' = new_lines sti @ [x]"
    by blast
  from for_loop_new_lines [OF rest] obtain o2 where o2: "new_lines fin = new_lines sti' @ o2"
    by blast
  have fin: "new_lines fin = o1 @ x # o2" using o1 x o2 by simp
  have "take i (new_lines fin) = o1" using fin o1(2) by simp
  moreover have "new_lines fin ! i = x" using fin o1(2) by (simp add: nth_append)
  ultimately show ?thesis using sti sti' o1 x by auto
qed

lemma loop_body_fs:
  assumes "root_dir e' = root_dir e" and "os_path_join e' = os_path_join e"
    and "print_raises e' = print_raises e"
    and "\<And>p. os_path_exists e' p = os_path_exists e p"
  shows "loop_body e' st line = loop_body e st line"
proof -
  have js: "join_star e' = join_star e"
    by (intro ext) (simp add: join_star_def assms(2) split: list.splits)
  show ?thesis
    unfolding loop_body_def py_print_def js assms by (rule refl)
qed

lemma for_loop_fs:
  assumes "root_dir e' = root_dir e" and "os_path_join e' = os_path_join e"
    and "print_raises e' = print_raises e"
    and "\<And>p. os_path_exists e' p = os_path_exists e p"
  shows "for_loop e' st lines = for_loop e st lines"
  by (induction lines arbitrary: st) (simp_all add: loop_body_fs [OF assms] split: sum.splits)

lemma loop_body_output:
  assumes "loop_body e st line = Inr st'"
  shows "new_lines st' = new_lines st @ [line] \<or>
         (re_match dir_re (strip line) = None \<and>
          (\<exists>f pre suf. re_match file_re (strip line) = Some (Some f) \<and>
             os_path_exists e (os_path_join e (root_dir e)
               [join_star e (map snd (pop_loop (indent_of line) (dir_stack st))) f]) \<and>
             line = pre @ f @ suf \<and>
             new_lines st' = new_lines st @
               [pre @ u ''['' @ f @ u ''](''
                @ replace_chr 92 47
                    (join_star e (map snd (pop_loop (indent_of line) (dir_stack st))) f)
                @ u '')'' @ suf]))"
proof (cases "re_match dir_re (strip line)")
  case (Some m)
  from loop_body_dir [OF this, of e st] assms show ?thesis by auto
next
  case None
  show ?thesis
  proof (cases "re_match file_re (strip line)")
    case n2: None
    from loop_body_other [OF None n2, of e st] assms show ?thesis by auto
  next
    case (Some m)
    with file_match_group obtain f where f: "re_match file_re (strip line) = Some (Some f)"
      by blast
    let ?rel = "join_star e (map snd (pop_loop (indent_of line) (dir_stack st))) f"
    show ?thesis
    proof (cases "os_path_exists e (os_path_join e (root_dir e) [?rel])")
      case False
      from loop_body_missing [OF None f False] assms show ?thesis
        by (auto split: option.splits)
    next
      case True
      from filename_in_line [OF f] obtain p q where "line = p @ f @ q" by blast
      note sp = splice_at_find [OF this]
      from loop_body_found [OF None f True] assms
      have "new_lines st' = new_lines st @
               [slice_to line (py_find line f) @ u ''['' @ f @ u '']('' @ replace_chr 92 47 ?rel
                @ u '')'' @ slice_from line (py_find line f + int (length f))]"
        by auto
      with None f True sp(1) show ?thesis by blast
    qed
  qed
qed

lemma main_for_loop:
  assumes "main e lines = Inr (out, log)"
  shows "\<exists>fin. for_loop e init lines = Inr fin \<and> out = new_lines fin \<and> length out = length lines"
proof (cases "for_loop e init lines")
  case (Inl err)
  with assms show ?thesis by (simp add: main_def)
next
  case (Inr fin)
  with assms have "out = new_lines fin" by (auto simp: main_def split: sum.splits)
  moreover have "length (new_lines fin) = length lines"
    using for_loop_length [OF Inr] by (simp add: init_def)
  ultimately show ?thesis using Inr by simp
qed

section \<open>The claims\<close>

text \<open>
  C1. A file line (the directory pattern does not match the stripped line, the file
  pattern does, with the token \<open>filename\<close>) whose candidate path exists: the candidate is
  \<^verbatim>\<open>os.path.join\<close> of the root with the relative path, the relative path is
  \<^verbatim>\<open>os.path.join\<close> of the names on the stack, bottom first, and the filename (the
  filename alone when the stack is empty). The line produced is the input line with an
  occurrence of the filename replaced by \<^verbatim>\<open>[filename](path)\<close>, where the path is the
  relative path with every backslash turned into a forward slash, whatever the host's
  join is.
\<close>

theorem file_line_linked:
  assumes "re_match dir_re (strip line) = None"
    and "re_match file_re (strip line) = Some (Some filename)"
    and "stack = pop_loop (indent_of line) (dir_stack st)"
    and "relative_path = join_star e (map snd stack) filename"
    and "os_path_exists e (os_path_join e (root_dir e) [relative_path])"
  shows "\<exists>pre suf. line = pre @ filename @ suf \<and>
           loop_body e st line =
             Inr (st\<lparr>dir_stack := stack,
                      new_lines := new_lines st @
                        [pre @ u ''['' @ filename @ u ''](''
                         @ replace_chr 92 47 relative_path @ u '')'' @ suf]\<rparr>) \<and>
           92 \<notin> set (replace_chr 92 47 relative_path) \<and>
           (stack = [] \<longrightarrow> relative_path = os_path_join e filename [])"
proof -
  from filename_in_line [OF assms(2)] obtain p q where "line = p @ filename @ q" by blast
  note sp = splice_at_find [OF this]
  show ?thesis
  proof (intro exI conjI)
    show "line = slice_to line (py_find line filename) @ filename
                 @ slice_from line (py_find line filename + int (length filename))"
      by (rule sp(1))
    show "loop_body e st line =
             Inr (st\<lparr>dir_stack := stack,
                      new_lines := new_lines st @
                        [slice_to line (py_find line filename) @ u ''['' @ filename @ u ''](''
                         @ replace_chr 92 47 relative_path @ u '')''
                         @ slice_from line (py_find line filename + int (length filename))]\<rparr>)"
      using loop_body_found [OF assms(1,2), of e st] assms(3,4,5) by simp
    show "92 \<notin> set (replace_chr 92 47 relative_path)"
      by (rule replace_chr_removes) simp
    show "stack = [] \<longrightarrow> relative_path = os_path_join e filename []"
      using assms(4) by (simp add: join_star_def)
  qed
qed

text \<open>
  The nested scenario of the specification on a POSIX host:
  \<^verbatim>\<open>root/core/models/Order.java\<close> exists, and the third line gets the link path
  \<^verbatim>\<open>core/models/Order.java\<close>.
\<close>

theorem file_line_linked_witness:
  "for_loop (posix_env (u ''root'') [(u ''root/core/models/Order.java'', RegularFile)]) init
      [u ''- **core/**'' @ [10], u ''  - **models/**'' @ [10]]
     = Inr \<lparr>dir_stack = [(0, u ''core''), (2, u ''models'')],
            new_lines = [u ''- **core/**'' @ [10], u ''  - **models/**'' @ [10]],
            stdout = []\<rparr> \<and>
   loop_body (posix_env (u ''root'') [(u ''root/core/models/Order.java'', RegularFile)])
      \<lparr>dir_stack = [(0, u ''core''), (2, u ''models'')],
       new_lines = [u ''- **core/**'' @ [10], u ''  - **models/**'' @ [10]],
       stdout = []\<rparr>
      (u ''    - Order.java '' @ [EM_DASH] @ u '' entity'' @ [10])
     = Inr \<lparr>dir_stack = [(0, u ''core''), (2, u ''models'')],
            new_lines = [u ''- **core/**'' @ [10], u ''  - **models/**'' @ [10],
              u ''    - [Order.java](core/models/Order.java) '' @ [EM_DASH] @ u '' entity'' @ [10]],
            stdout = []\<rparr>"
proof -
  let ?e = "posix_env (u ''root'') [(u ''root/core/models/Order.java'', RegularFile)]"
  let ?st = "\<lparr>dir_stack = [(0, u ''core''), (2, u ''models'')],
       new_lines = [u ''- **core/**'' @ [10], u ''  - **models/**'' @ [10]],
       stdout = []\<rparr>"
  let ?line = "u ''    - Order.java '' @ [EM_DASH] @ u '' entity'' @ [10]"
  have h1: "re_match dir_re (strip ?line) = None"
    by (simp add: eval_defs)
  have h2: "re_match file_re (strip ?line) = Some (Some (u ''Order.java''))"
    by (simp add: eval_defs)
  have h3: "[(0, u ''core''), (2, u ''models'')] = pop_loop (indent_of ?line) (dir_stack ?st)"
    by (simp add: eval_defs)
  have h4: "u ''core/models/Order.java''
              = join_star ?e (map snd [(0, u ''core''), (2, u ''models'')]) (u ''Order.java'')"
    by (simp add: eval_defs)
  have h5: "os_path_exists ?e (os_path_join ?e (root_dir ?e) [u ''core/models/Order.java''])"
    by (simp add: eval_defs)
  have run: "for_loop ?e init [u ''- **core/**'' @ [10], u ''  - **models/**'' @ [10]] = Inr ?st"
    by (simp add: eval_defs)
  from file_line_linked [OF h1 h2 h3 h4 h5] obtain pre suf
    where split: "?line = pre @ u ''Order.java'' @ suf"
      and body: "loop_body ?e ?st ?line =
        Inr (?st\<lparr>dir_stack := [(0, u ''core''), (2, u ''models'')],
                  new_lines := new_lines ?st @
                    [pre @ u ''['' @ u ''Order.java'' @ u ''](''
                     @ replace_chr 92 47 (u ''core/models/Order.java'') @ u '')'' @ suf]\<rparr>)"
    by blast
  have "loop_body ?e ?st ?line = Inr \<lparr>dir_stack = [(0, u ''core''), (2, u ''models'')],
            new_lines = [u ''- **core/**'' @ [10], u ''  - **models/**'' @ [10],
              u ''    - [Order.java](core/models/Order.java) '' @ [EM_DASH] @ u '' entity'' @ [10]],
            stdout = []\<rparr>"
    by (simp add: eval_defs)
  with run body show ?thesis by simp
qed

text \<open>
  A file line whose candidate path does not exist, for as long as \<^verbatim>\<open>print\<close> returns:
  the line is appended as it is, the diagnostic \<^verbatim>\<open>File not found: <full_path>\<close> is
  printed, and the loop goes on with the next line. When \<^verbatim>\<open>print\<close> raises, the body
  raises with it, and so does the loop.
\<close>

lemma missing_file_kept_when_print_returns:
  assumes "re_match dir_re (strip line) = None"
    and "re_match file_re (strip line) = Some (Some filename)"
    and "stack = pop_loop (indent_of line) (dir_stack st)"
    and "full_path = os_path_join e (root_dir e) [join_star e (map snd stack) filename]"
    and "\<not> os_path_exists e full_path"
    and "print_raises e (stdout st) (u ''File not found: '' @ full_path) = None"
  shows "loop_body e st line =
           Inr (st\<lparr>dir_stack := stack,
                    new_lines := new_lines st @ [line],
                    stdout := stdout st @ [u ''File not found: '' @ full_path]\<rparr>)"
    and "for_loop e st (line # rest) =
           for_loop e (st\<lparr>dir_stack := stack,
                          new_lines := new_lines st @ [line],
                          stdout := stdout st @ [u ''File not found: '' @ full_path]\<rparr>) rest"
proof -
  show body: "loop_body e st line =
           Inr (st\<lparr>dir_stack := stack,
                    new_lines := new_lines st @ [line],
                    stdout := stdout st @ [u ''File not found: '' @ full_path]\<rparr>)"
    using loop_body_missing [OF assms(1,2), of e st] assms(3,4,5,6) by simp
  show "for_loop e st (line # rest) =
           for_loop e (st\<lparr>dir_stack := stack,
                          new_lines := new_lines st @ [line],
                          stdout := stdout st @ [u ''File not found: '' @ full_path]\<rparr>) rest"
    using body by simp
qed

lemma missing_file_fatal_when_print_raises:
  assumes "re_match dir_re (strip line) = None"
    and "re_match file_re (strip line) = Some (Some filename)"
    and "stack = pop_loop (indent_of line) (dir_stack st)"
    and "full_path = os_path_join e (root_dir e) [join_star e (map snd stack) filename]"
    and "\<not> os_path_exists e full_path"
    and "print_raises e (stdout st) (u ''File not found: '' @ full_path) = Some err"
  shows "loop_body e st line = Inl err" and "for_loop e st (line # rest) = Inl err"
proof -
  show body: "loop_body e st line = Inl err"
    using loop_body_missing [OF assms(1,2), of e st] assms(3,4,5,6) by simp
  show "for_loop e st (line # rest) = Inl err"
    using body by simp
qed

lemma missing_file_kept_example:
  "for_loop (posix_env (u ''root'') []) \<lparr>dir_stack = [(0, u ''docs'')], new_lines = [], stdout = []\<rparr>
      [u ''  - ghost.txt '' @ [EM_DASH] @ u '' gone'' @ [10], u ''done'' @ [10]]
     = Inr \<lparr>dir_stack = [(0, u ''docs'')],
            new_lines = [u ''  - ghost.txt '' @ [EM_DASH] @ u '' gone'' @ [10], u ''done'' @ [10]],
            stdout = [u ''File not found: root/docs/ghost.txt'']\<rparr>"
  by (simp add: eval_defs)

text \<open>
  C2. The claim (the unresolvable reference is not fatal: the line is kept, the
  diagnostic printed, the run goes on) does not hold of the code on a host whose standard
  output cannot encode the path. With an ASCII standard output and an open directory
  \<^verbatim>\<open>docs\<close>, the file bullet for the missing file named by the Hebrew letter alef
  (U+05D0) and \<^verbatim>\<open>.txt\<close> makes \<^verbatim>\<open>print\<close> raise \<^verbatim>\<open>UnicodeEncodeError\<close> before the line
  is appended: the body raises, and the loop ends there although a line follows.
\<close>

theorem missing_file_diagnostic_aborts:
  "re_match dir_re (strip (u ''  - '' @ [1488] @ u ''.txt '' @ [EM_DASH] @ u '' notes'' @ [10])) = None \<and>
   re_match file_re (strip (u ''  - '' @ [1488] @ u ''.txt '' @ [EM_DASH] @ u '' notes'' @ [10]))
     = Some (Some ([1488] @ u ''.txt'')) \<and>
   os_path_exists (ascii_env (u ''root'') []) (u ''root/docs/'' @ [1488] @ u ''.txt'') = False \<and>
   loop_body (ascii_env (u ''root'') [])
      \<lparr>dir_stack = [(0, u ''docs'')], new_lines = [u ''- **docs/**'' @ [10]], stdout = []\<rparr>
      (u ''  - '' @ [1488] @ u ''.txt '' @ [EM_DASH] @ u '' notes'' @ [10])
     = Inl UnicodeEncodeError \<and>
   for_loop (ascii_env (u ''root'') [])
      \<lparr>dir_stack = [(0, u ''docs'')], new_lines = [u ''- **docs/**'' @ [10]], stdout = []\<rparr>
      [u ''  - '' @ [1488] @ u ''.txt '' @ [EM_DASH] @ u '' notes'' @ [10], u ''done'' @ [10]]
     = Inl UnicodeEncodeError"
  by (simp add: eval_defs)

text \<open>
  C5. A line that matches neither pattern is appended as it is; the stack and the
  printed output stay as they were.
\<close>

theorem other_line_unchanged:
  assumes "re_match dir_re (strip line) = None" and "re_match file_re (strip line) = None"
  shows "loop_body e st line = Inr (st\<lparr>new_lines := new_lines st @ [line]\<rparr>)"
  using assms by (rule loop_body_other)

text \<open>
  A heading, although a file of that name exists under the open directory.
\<close>

theorem other_line_unchanged_witness:
  "loop_body (posix_env (u ''root'') [(u ''root/core/Heading'', RegularFile)])
      \<lparr>dir_stack = [(0, u ''core'')], new_lines = [], stdout = []\<rparr>
      (u ''  ## Heading -- notes'' @ [10])
     = Inr \<lparr>dir_stack = [(0, u ''core'')],
            new_lines = [u ''  ## Heading -- notes'' @ [10]], stdout = []\<rparr>"
proof -
  let ?line = "u ''  ## Heading -- notes'' @ [10]"
  have h1: "re_match dir_re (strip ?line) = None"
    by (simp add: eval_defs)
  have h2: "re_match file_re (strip ?line) = None"
    by (simp add: eval_defs)
  show ?thesis
    using other_line_unchanged [OF h1 h2,
      of "posix_env (u ''root'') [(u ''root/core/Heading'', RegularFile)]"
         "\<lparr>dir_stack = [(0, u ''core'')], new_lines = [], stdout = []\<rparr>"]
    by simp
qed

text \<open>
  C7. When a file line is rewritten, the link takes the place of the first occurrence of
  the filename in the raw line: the filename occurs at no earlier index, and the text
  before and after that occurrence is kept as it is.
\<close>

theorem first_occurrence_replaced:
  assumes "re_match dir_re (strip line) = None"
    and "re_match file_re (strip line) = Some (Some filename)"
    and "relative_path = join_star e (map snd (pop_loop (indent_of line) (dir_stack st))) filename"
    and "os_path_exists e (os_path_join e (root_dir e) [relative_path])"
    and "loop_body e st line = Inr st'"
  shows "\<exists>pre suf. line = pre @ filename @ suf \<and>
           (\<forall>j<length pre. take (length filename) (drop j line) \<noteq> filename) \<and>
           new_lines st' = new_lines st @
             [pre @ (u ''['' @ filename @ u ''](''
                     @ replace_chr 92 47 relative_path @ u '')'') @ suf]"
proof -
  from filename_in_line [OF assms(2)] obtain p q where "line = p @ filename @ q" by blast
  note sp = splice_at_find [OF this]
  let ?pre = "slice_to line (py_find line filename)"
  let ?suf = "slice_from line (py_find line filename + int (length filename))"
  have "\<forall>j<length ?pre. take (length filename) (drop j line) \<noteq> filename"
    using py_find_first [OF sp(3)] sp(2) by simp
  moreover have "new_lines st' = new_lines st @
             [?pre @ (u ''['' @ filename @ u ''](''
                     @ replace_chr 92 47 relative_path @ u '')'') @ ?suf]"
    using loop_body_found [OF assms(1,2), of e st] assms(3,4,5) by auto
  ultimately show ?thesis using sp(1) by blast
qed

text \<open>
  The filename occurs twice in the line, at index 2 and again in the description at
  index 18; only the first occurrence becomes a link.
\<close>

theorem first_occurrence_replaced_witness:
  "loop_body (posix_env (u ''root'') [(u ''root/a.txt'', RegularFile)]) init
      (u ''- a.txt '' @ [EM_DASH] @ u '' copy of a.txt'' @ [10])
     = Inr \<lparr>dir_stack = [],
            new_lines = [u ''- [a.txt](a.txt) '' @ [EM_DASH] @ u '' copy of a.txt'' @ [10]],
            stdout = []\<rparr> \<and>
   take 5 (drop 2 (u ''- a.txt '' @ [EM_DASH] @ u '' copy of a.txt'' @ [10])) = u ''a.txt'' \<and>
   take 5 (drop 18 (u ''- a.txt '' @ [EM_DASH] @ u '' copy of a.txt'' @ [10])) = u ''a.txt''"
proof -
  let ?e = "posix_env (u ''root'') [(u ''root/a.txt'', RegularFile)]"
  let ?line = "u ''- a.txt '' @ [EM_DASH] @ u '' copy of a.txt'' @ [10]"
  let ?out = "\<lparr>dir_stack = [],
            new_lines = [u ''- [a.txt](a.txt) '' @ [EM_DASH] @ u '' copy of a.txt'' @ [10]],
            stdout = []\<rparr>"
  have h1: "re_match dir_re (strip ?line) = None"
    by (simp add: eval_defs)
  have h2: "re_match file_re (strip ?line) = Some (Some (u ''a.txt''))"
    by (simp add: eval_defs)
  have h3: "u ''a.txt'' = join_star ?e (map snd (pop_loop (indent_of ?line) (dir_stack init))) (u ''a.txt'')"
    by (simp add: eval_defs)
  have h4: "os_path_exists ?e (os_path_join ?e (root_dir ?e) [u ''a.txt''])"
    by (simp add: eval_defs)
  have h5: "loop_body ?e init ?line = Inr ?out"
    by (simp add: eval_defs)
  have occ: "take 5 (drop 2 ?line) = u ''a.txt'' \<and> take 5 (drop 18 ?line) = u ''a.txt''"
    by (simp add: eval_defs)
  from first_occurrence_replaced [OF h1 h2 h3 h4 h5]
  have first: "\<exists>pre suf. ?line = pre @ u ''a.txt'' @ suf \<and>
      (\<forall>j<length pre. take (length (u ''a.txt'')) (drop j ?line) \<noteq> u ''a.txt'')"
    by blast
  have both: "loop_body ?e init ?line = Inr ?out \<and>
      take 5 (drop 2 ?line) = u ''a.txt'' \<and> take 5 (drop 18 ?line) = u ''a.txt''"
    using h5 occ by (rule conjI)
  show ?thesis using first both by - (rule both)
qed

text \<open>
  C8. The directory pattern is tried first: a line it matches is appended as it is and
  only updates the stack (pop, then push), whatever the file pattern would do with the
  line.
\<close>

theorem directory_line_never_rewritten:
  assumes "re_match dir_re (strip line) = Some m"
  shows "\<exists>g. m = Some g \<and>
           loop_body e st line =
             Inr (st\<lparr>dir_stack := pop_loop (indent_of line) (dir_stack st)
                                     @ [(indent_of line, rstrip_chr 47 g)],
                      new_lines := new_lines st @ [line]\<rparr>)"
  using assms by (rule loop_body_dir)

text \<open>
  A directory line that the file pattern matches as well, and whose token names an
  existing node: it is not rewritten.
\<close>

theorem directory_line_never_rewritten_witness:
  "re_match file_re (strip (u ''- **docs/** '' @ [EM_DASH] @ u '' manuals'' @ [10]))
     = Some (Some (u ''**docs/**'')) \<and>
   os_path_exists (posix_env (u ''root'') [(u ''root/**docs/**'', Directory)]) (u ''root/**docs/**'') \<and>
   loop_body (posix_env (u ''root'') [(u ''root/**docs/**'', Directory)]) init
      (u ''- **docs/** '' @ [EM_DASH] @ u '' manuals'' @ [10])
     = Inr \<lparr>dir_stack = [(0, u ''docs'')],
            new_lines = [u ''- **docs/** '' @ [EM_DASH] @ u '' manuals'' @ [10]],
            stdout = []\<rparr>"
proof -
  let ?e = "posix_env (u ''root'') [(u ''root/**docs/**'', Directory)]"
  let ?line = "u ''- **docs/** '' @ [EM_DASH] @ u '' manuals'' @ [10]"
  have h1: "re_match dir_re (strip ?line) = Some (Some (u ''docs/''))"
    by (simp add: eval_defs)
  have h2: "re_match file_re (strip ?line) = Some (Some (u ''**docs/**''))"
    by (simp add: eval_defs)
  have h3: "os_path_exists ?e (u ''root/**docs/**'')"
    by (simp add: eval_defs)
  from directory_line_never_rewritten [OF h1, of ?e init]
  have "loop_body ?e init ?line =
          Inr (init\<lparr>dir_stack := pop_loop (indent_of ?line) (dir_stack init)
                                     @ [(indent_of ?line, rstrip_chr 47 (u ''docs/''))],
                    new_lines := new_lines init @ [?line]\<rparr>)"
    by simp
  also have "\<dots> = Inr \<lparr>dir_stack = [(0, u ''docs'')], new_lines = [?line], stdout = []\<rparr>"
    by (simp add: eval_defs)
  finally show ?thesis using h2 h3 by simp
qed

text \<open>
  C3. At every point of a run (\<open>st\<close> is the state after any number of lines, \<open>st'\<close> the
  state after the next line) the indent levels on the stack grow strictly from bottom to
  top. What the pop leaves is strictly shallower than the indent of the line; a
  directory line then pushes itself on top of that, a file line leaves the stack at
  that, and any other line leaves the stack as it was.
\<close>

theorem stack_strictly_increasing:
  assumes "for_loop e init processed = Inr st" and "loop_body e st line = Inr st'"
  shows "increasing (dir_stack st) \<and> increasing (dir_stack st') \<and>
         (\<forall>x\<in>set (pop_loop (indent_of line) (dir_stack st)). fst x < indent_of line) \<and>
         (\<forall>g. re_match dir_re (strip line) = Some (Some g) \<longrightarrow>
              dir_stack st' = pop_loop (indent_of line) (dir_stack st)
                                @ [(indent_of line, rstrip_chr 47 g)]) \<and>
         (re_match dir_re (strip line) = None \<and> re_match file_re (strip line) \<noteq> None \<longrightarrow>
              dir_stack st' = pop_loop (indent_of line) (dir_stack st) \<and>
              (\<forall>x\<in>set (dir_stack st'). fst x < indent_of line)) \<and>
         (re_match dir_re (strip line) = None \<and> re_match file_re (strip line) = None \<longrightarrow>
              dir_stack st' = dir_stack st)"
proof -
  have inc: "increasing (dir_stack st)"
    using for_loop_increasing [OF increasing_init assms(1)] .
  have inc': "increasing (dir_stack st')"
    using loop_body_increasing [OF inc assms(2)] .
  have below: "\<forall>x\<in>set (pop_loop (indent_of line) (dir_stack st)). fst x < indent_of line"
    using increasing_pop(2) [OF inc] .
  have dr: "\<forall>g. re_match dir_re (strip line) = Some (Some g) \<longrightarrow>
              dir_stack st' = pop_loop (indent_of line) (dir_stack st)
                                @ [(indent_of line, rstrip_chr 47 g)]"
    using loop_body_stack(1) [OF assms(2)] by blast
  have fl: "re_match dir_re (strip line) = None \<and> re_match file_re (strip line) \<noteq> None \<longrightarrow>
              dir_stack st' = pop_loop (indent_of line) (dir_stack st) \<and>
              (\<forall>x\<in>set (dir_stack st'). fst x < indent_of line)"
    using loop_body_stack(2) [OF assms(2)] below by auto
  have other: "re_match dir_re (strip line) = None \<and> re_match file_re (strip line) = None \<longrightarrow>
              dir_stack st' = dir_stack st"
    using loop_body_stack(3) [OF assms(2)] by blast
  from inc inc' below dr fl other show ?thesis by blast
qed

text \<open>
  Three nested directories, then a directory at the indent of the second: the two
  innermost are popped.
\<close>

theorem stack_strictly_increasing_witness:
  "for_loop (posix_env (u ''root'') []) init
      [u ''- **core/**'' @ [10], u ''  - **models/**'' @ [10], u ''    - **dto/**'' @ [10]]
     = Inr \<lparr>dir_stack = [(0, u ''core''), (2, u ''models''), (4, u ''dto'')],
            new_lines = [u ''- **core/**'' @ [10], u ''  - **models/**'' @ [10],
                         u ''    - **dto/**'' @ [10]],
            stdout = []\<rparr> \<and>
   loop_body (posix_env (u ''root'') [])
      \<lparr>dir_stack = [(0, u ''core''), (2, u ''models''), (4, u ''dto'')],
       new_lines = [u ''- **core/**'' @ [10], u ''  - **models/**'' @ [10],
                    u ''    - **dto/**'' @ [10]],
       stdout = []\<rparr>
      (u ''  - **util/**'' @ [10])
     = Inr \<lparr>dir_stack = [(0, u ''core''), (2, u ''util'')],
            new_lines = [u ''- **core/**'' @ [10], u ''  - **models/**'' @ [10],
                         u ''    - **dto/**'' @ [10], u ''  - **util/**'' @ [10]],
            stdout = []\<rparr> \<and>
   increasing [(0, u ''core''), (2, u ''models''), (4, u ''dto'')] \<and>
   increasing [(0, u ''core''), (2, u ''util'')]"
proof -
  let ?e = "posix_env (u ''root'') []"
  let ?st = "\<lparr>dir_stack = [(0, u ''core''), (2, u ''models''), (4, u ''dto'')],
       new_lines = [u ''- **core/**'' @ [10], u ''  - **models/**'' @ [10],
                    u ''    - **dto/**'' @ [10]],
       stdout = []\<rparr>"
  let ?st' = "\<lparr>dir_stack = [(0, u ''core''), (2, u ''util'')],
            new_lines = [u ''- **core/**'' @ [10], u ''  - **models/**'' @ [10],
                         u ''    - **dto/**'' @ [10], u ''  - **util/**'' @ [10]],
            stdout = []\<rparr>"
  have h1: "for_loop ?e init
      [u ''- **core/**'' @ [10], u ''  - **models/**'' @ [10], u ''    - **dto/**'' @ [10]] = Inr ?st"
    by (simp add: eval_defs)
  have h2: "loop_body ?e ?st (u ''  - **util/**'' @ [10]) = Inr ?st'"
    by (simp add: eval_defs)
  from stack_strictly_increasing [OF h1 h2]
  have "increasing (dir_stack ?st) \<and> increasing (dir_stack ?st')" by blast
  with h1 h2 show ?thesis by simp
qed

text \<open>
  C4, as stated, fails. Two directory lines at indent 0 in sequence and, with no line
  between, a file line at indent 0: the file line pops the second directory as well, and
  resolves under the root although \<^verbatim>\<open>root/b/x.txt\<close> exists.
\<close>

theorem file_after_siblings_counterexample:
  "indent_of (u ''- **a/**'' @ [10]) = 0 \<and> indent_of (u ''- **b/**'' @ [10]) = 0 \<and>
   re_match dir_re (strip (u ''- **a/**'' @ [10])) = Some (Some (u ''a/'')) \<and>
   re_match dir_re (strip (u ''- **b/**'' @ [10])) = Some (Some (u ''b/'')) \<and>
   re_match dir_re (strip (u ''- x.txt '' @ [EM_DASH] @ u '' notes'' @ [10])) = None \<and>
   re_match file_re (strip (u ''- x.txt '' @ [EM_DASH] @ u '' notes'' @ [10]))
     = Some (Some (u ''x.txt'')) \<and>
   os_path_exists
     (posix_env (u ''root'') [(u ''root/x.txt'', RegularFile), (u ''root/b/x.txt'', RegularFile)])
     (u ''root/b/x.txt'') \<and>
   for_loop
     (posix_env (u ''root'') [(u ''root/x.txt'', RegularFile), (u ''root/b/x.txt'', RegularFile)])
     init
     [u ''- **a/**'' @ [10], u ''- **b/**'' @ [10], u ''- x.txt '' @ [EM_DASH] @ u '' notes'' @ [10]]
     = Inr \<lparr>dir_stack = [],
            new_lines = [u ''- **a/**'' @ [10], u ''- **b/**'' @ [10],
                         u ''- [x.txt](x.txt) '' @ [EM_DASH] @ u '' notes'' @ [10]],
            stdout = []\<rparr>"
  by (simp add: eval_defs)

text \<open>
  C4, amended. Two directory lines \<open>d1\<close>, \<open>d2\<close> at the same indent \<open>L\<close> in sequence, anywhere
  in a run: the second pops the first, so the stack after both is the stack after the
  second alone, the entries shallower than \<open>L\<close> followed by the second directory. A
  file line \<open>f\<close> deeper than \<open>L\<close> that the run reaches after them, with every directory or
  file line between deeper than \<open>L\<close>, builds its path from those entries, the second
  directory, and directories deeper than \<open>L\<close> opened in between; that is the stack the
  body leaves when it returns.
\<close>

theorem file_under_second_sibling:
  assumes "for_loop e init before = Inr st0"
    and "re_match dir_re (strip d1) = Some (Some g1)"
    and "re_match dir_re (strip d2) = Some (Some g2)"
    and "indent_of d1 = L" and "indent_of d2 = L"
    and "\<forall>l\<in>set between.
           re_match dir_re (strip l) \<noteq> None \<or> re_match file_re (strip l) \<noteq> None
             \<longrightarrow> L < indent_of l"
    and "re_match dir_re (strip f) = None"
    and "re_match file_re (strip f) = Some (Some filename)"
    and "L < indent_of f"
    and "for_loop e init (before @ [d1, d2] @ between) = Inr st"
  shows "\<exists>s2 s2' deeper.
           for_loop e st0 [d1, d2] = Inr s2 \<and> for_loop e st0 [d2] = Inr s2' \<and>
           dir_stack s2 = dir_stack s2' \<and>
           dir_stack s2 = pop_loop L (dir_stack st0) @ [(L, rstrip_chr 47 g2)] \<and>
           (\<forall>x\<in>set (pop_loop L (dir_stack st0)). fst x < L) \<and>
           for_loop e s2 between = Inr st \<and>
           pop_loop (indent_of f) (dir_stack st)
             = pop_loop L (dir_stack st0) @ [(L, rstrip_chr 47 g2)] @ deeper \<and>
           (\<forall>x\<in>set deeper. L < fst x) \<and>
           join_star e (map snd (pop_loop (indent_of f) (dir_stack st))) filename
             = join_star e (map snd (pop_loop L (dir_stack st0)) @ [rstrip_chr 47 g2]
                            @ map snd deeper) filename \<and>
           (\<forall>st'. loop_body e st f = Inr st' \<longrightarrow>
              dir_stack st' = pop_loop L (dir_stack st0) @ [(L, rstrip_chr 47 g2)] @ deeper)"
proof -
  let ?A = "pop_loop L (dir_stack st0)"
  let ?n2 = "rstrip_chr 47 g2"
  from loop_body_dir [OF assms(2), of e st0] obtain s1 where s1: "loop_body e st0 d1 = Inr s1"
    by auto
  from loop_body_dir [OF assms(3), of e s1] obtain s2 where s2: "loop_body e s1 d2 = Inr s2"
    by auto
  from loop_body_dir [OF assms(3), of e st0] obtain s2' where s2': "loop_body e st0 d2 = Inr s2'"
    by auto
  have k1: "dir_stack s1 = ?A @ [(L, rstrip_chr 47 g1)]"
    using loop_body_stack(1) [OF s1 assms(2)] assms(4) by simp
  have "dir_stack s2 = pop_loop L (dir_stack s1) @ [(L, ?n2)]"
    using loop_body_stack(1) [OF s2 assms(3)] assms(5) by simp
  then have k2: "dir_stack s2 = ?A @ [(L, ?n2)]"
    unfolding k1 by (simp add: pop_loop_snoc pop_loop_idem)
  have k2': "dir_stack s2' = ?A @ [(L, ?n2)]"
    using loop_body_stack(1) [OF s2' assms(3)] assms(5) by simp
  have r2: "for_loop e st0 [d1, d2] = Inr s2" using s1 s2 by simp
  have r2': "for_loop e st0 [d2] = Inr s2'" using s2' by simp
  have "increasing (dir_stack st0)"
    using for_loop_increasing [OF increasing_init assms(1)] .
  then have below: "\<forall>x\<in>set ?A. fst x < L" by (rule increasing_pop(2))
  have "for_loop e st0 ([d1, d2] @ between) = Inr st"
    using assms(10) assms(1) by (simp add: for_loop_append)
  then have st: "for_loop e s2 between = Inr st"
    using r2 by (simp only: for_loop_append sum.case)
  have k2c: "dir_stack s2 = ?A @ (L, ?n2) # []" using k2 by simp
  from deeper_lines_keep [OF k2c _ assms(6) st] obtain D where
    D: "dir_stack st = ?A @ (L, ?n2) # D" "\<forall>x\<in>set D. L < fst x" by auto
  from pop_loop_above [OF assms(9), of ?A ?n2 D] obtain D' where
    D': "pop_loop (indent_of f) (?A @ (L, ?n2) # D) = ?A @ (L, ?n2) # D'" "set D' \<subseteq> set D"
    by blast
  have p: "pop_loop (indent_of f) (dir_stack st) = ?A @ [(L, ?n2)] @ D'"
    unfolding D(1) D'(1) by simp
  have d: "\<forall>x\<in>set D'. L < fst x" using D(2) D'(2) by auto
  have j: "join_star e (map snd (pop_loop (indent_of f) (dir_stack st))) filename
             = join_star e (map snd ?A @ [?n2] @ map snd D') filename"
    unfolding p by simp
  have b: "\<forall>st'. loop_body e st f = Inr st' \<longrightarrow> dir_stack st' = ?A @ [(L, ?n2)] @ D'"
    using loop_body_stack(2) [OF _ assms(7) assms(8)] p by simp
  have eq: "dir_stack s2 = dir_stack s2'" using k2 k2' by simp
  from r2 r2' eq k2 below st p d j b
  have "for_loop e st0 [d1, d2] = Inr s2 \<and> for_loop e st0 [d2] = Inr s2' \<and>
           dir_stack s2 = dir_stack s2' \<and>
           dir_stack s2 = ?A @ [(L, ?n2)] \<and>
           (\<forall>x\<in>set ?A. fst x < L) \<and>
           for_loop e s2 between = Inr st \<and>
           pop_loop (indent_of f) (dir_stack st) = ?A @ [(L, ?n2)] @ D' \<and>
           (\<forall>x\<in>set D'. L < fst x) \<and>
           join_star e (map snd (pop_loop (indent_of f) (dir_stack st))) filename
             = join_star e (map snd ?A @ [?n2] @ map snd D') filename \<and>
           (\<forall>st'. loop_body e st f = Inr st' \<longrightarrow> dir_stack st' = ?A @ [(L, ?n2)] @ D')"
    by - (intro conjI, assumption+)
  then show ?thesis by (intro exI)
qed

text \<open>
  The file exists under both siblings; the link goes to the second.
\<close>

theorem file_under_second_sibling_witness:
  "main (posix_env (u ''root'') [(u ''root/b/sub/x.txt'', RegularFile), (u ''root/a/sub/x.txt'', RegularFile)])
     [u ''- **a/**'' @ [10], u ''- **b/**'' @ [10], u ''  - **sub/**'' @ [10], u ''notes'' @ [10],
      u ''    - x.txt '' @ [EM_DASH] @ u '' notes'' @ [10]]
     = Inr ([u ''- **a/**'' @ [10], u ''- **b/**'' @ [10], u ''  - **sub/**'' @ [10], u ''notes'' @ [10],
             u ''    - [x.txt](b/sub/x.txt) '' @ [EM_DASH] @ u '' notes'' @ [10]],
            [u ''Inventory processing complete.''])"
proof -
  let ?e = "posix_env (u ''root'') [(u ''root/b/sub/x.txt'', RegularFile), (u ''root/a/sub/x.txt'', RegularFile)]"
  let ?d1 = "u ''- **a/**'' @ [10]"
  let ?d2 = "u ''- **b/**'' @ [10]"
  let ?between = "[u ''  - **sub/**'' @ [10], u ''notes'' @ [10]]"
  let ?f = "u ''    - x.txt '' @ [EM_DASH] @ u '' notes'' @ [10]"
  let ?st = "\<lparr>dir_stack = [(0, u ''b''), (2, u ''sub'')],
             new_lines = [?d1, ?d2, u ''  - **sub/**'' @ [10], u ''notes'' @ [10]],
             stdout = []\<rparr>"
  have h1: "for_loop ?e init [] = Inr init" by simp
  have h2: "re_match dir_re (strip ?d1) = Some (Some (u ''a/''))" by (simp add: eval_defs)
  have h3: "re_match dir_re (strip ?d2) = Some (Some (u ''b/''))" by (simp add: eval_defs)
  have h4: "indent_of ?d1 = 0" by (simp add: eval_defs)
  have h5: "indent_of ?d2 = 0" by (simp add: eval_defs)
  have h6: "\<forall>l\<in>set ?between.
           re_match dir_re (strip l) \<noteq> None \<or> re_match file_re (strip l) \<noteq> None
             \<longrightarrow> 0 < indent_of l"
    by (simp add: eval_defs)
  have h7: "re_match dir_re (strip ?f) = None" by (simp add: eval_defs)
  have h8: "re_match file_re (strip ?f) = Some (Some (u ''x.txt''))" by (simp add: eval_defs)
  have h9: "0 < indent_of ?f" by (simp add: eval_defs)
  have h10: "for_loop ?e init ([] @ [?d1, ?d2] @ ?between) = Inr ?st"
    by (simp add: eval_defs)
  from file_under_second_sibling [OF h1 h2 h3 h4 h5 h6 h7 h8 h9 h10]
  have used: "\<exists>s2 s2'. for_loop ?e init [?d1, ?d2] = Inr s2 \<and> for_loop ?e init [?d2] = Inr s2' \<and>
           dir_stack s2 = dir_stack s2'"
    by blast
  have run: "main ?e [?d1, ?d2, u ''  - **sub/**'' @ [10], u ''notes'' @ [10], ?f]
     = Inr ([?d1, ?d2, u ''  - **sub/**'' @ [10], u ''notes'' @ [10],
             u ''    - [x.txt](b/sub/x.txt) '' @ [EM_DASH] @ u '' notes'' @ [10]],
            [u ''Inventory processing complete.''])"
    by (simp add: eval_defs)
  show ?thesis using used run by - (rule run)
qed

text \<open>
  C6. A second run on the output of a first run: a line the first run converted has
  the link form, and the second run leaves it as it is, unless on the second run the
  directory pattern does not match it, the file pattern does, and the candidate path of
  the token it captures exists.
\<close>

theorem relinking_keeps_links:
  assumes "main e lines = Inr (out, log)" and "main e out = Inr (out2, log2)"
    and "i < length lines" and "out ! i \<noteq> lines ! i"
    and "for_loop e init (take i out) = Inr st2"
    and "\<not> (re_match dir_re (strip (out ! i)) = None \<and>
            (\<exists>f. re_match file_re (strip (out ! i)) = Some (Some f) \<and>
               os_path_exists e (os_path_join e (root_dir e)
                 [join_star e (map snd (pop_loop (indent_of (out ! i)) (dir_stack st2))) f])))"
  shows "out2 ! i = out ! i \<and>
         (\<exists>pre f rel suf. lines ! i = pre @ f @ suf \<and>
            out ! i = pre @ u ''['' @ f @ u '']('' @ rel @ u '')'' @ suf)"
proof -
  from main_for_loop [OF assms(1)] obtain fin where
    fin: "for_loop e init lines = Inr fin" "out = new_lines fin" "length out = length lines"
    by blast
  from for_loop_nth [OF fin(1) assms(3)] obtain sti sti' where
    first: "new_lines sti = take i out" "loop_body e sti (lines ! i) = Inr sti'"
      "new_lines sti' = take i out @ [out ! i]"
    unfolding fin(2) by blast
  from loop_body_output [OF first(2)] assms(4) first(1,3)
  have form: "\<exists>pre f rel suf. lines ! i = pre @ f @ suf \<and>
            out ! i = pre @ u ''['' @ f @ u '']('' @ rel @ u '')'' @ suf"
    by auto
  from main_for_loop [OF assms(2)] obtain fin2 where
    fin2: "for_loop e init out = Inr fin2" "out2 = new_lines fin2"
    by blast
  have i': "i < length out" using assms(3) fin(3) by simp
  from for_loop_nth [OF fin2(1) i'] assms(5) obtain st2' where
    second: "new_lines st2 = take i out2" "loop_body e st2 (out ! i) = Inr st2'"
      "new_lines st2' = take i out2 @ [out2 ! i]"
    unfolding fin2(2) by auto
  from loop_body_output [OF second(2)] assms(6)
  have "new_lines st2' = new_lines st2 @ [out ! i]" by blast
  with second(1,3) have "out2 ! i = out ! i" by simp
  with form show ?thesis by blast
qed

text \<open>
  The first scenario of the specification, run twice. On the second run the file
  pattern matches the link line with the whole link as its token; the candidate does not
  exist, so the line stays, and a diagnostic is printed.
\<close>

theorem relinking_keeps_links_witness:
  "main (posix_env (u ''root'') [(u ''root/core/User.java'', RegularFile)])
      [u ''- **core/**'' @ [10], u ''  - User.java '' @ [EM_DASH] @ u '' model'' @ [10]]
     = Inr ([u ''- **core/**'' @ [10],
             u ''  - [User.java](core/User.java) '' @ [EM_DASH] @ u '' model'' @ [10]],
            [u ''Inventory processing complete.'']) \<and>
   main (posix_env (u ''root'') [(u ''root/core/User.java'', RegularFile)])
      [u ''- **core/**'' @ [10],
       u ''  - [User.java](core/User.java) '' @ [EM_DASH] @ u '' model'' @ [10]]
     = Inr ([u ''- **core/**'' @ [10],
             u ''  - [User.java](core/User.java) '' @ [EM_DASH] @ u '' model'' @ [10]],
            [u ''File not found: root/core/[User.java](core/User.java)'',
             u ''Inventory processing complete.''])"
proof -
  let ?e = "posix_env (u ''root'') [(u ''root/core/User.java'', RegularFile)]"
  let ?lines = "[u ''- **core/**'' @ [10], u ''  - User.java '' @ [EM_DASH] @ u '' model'' @ [10]]"
  let ?out = "[u ''- **core/**'' @ [10],
               u ''  - [User.java](core/User.java) '' @ [EM_DASH] @ u '' model'' @ [10]]"
  let ?st2 = "\<lparr>dir_stack = [(0, u ''core'')], new_lines = [u ''- **core/**'' @ [10]], stdout = []\<rparr>"
  have h1: "main ?e ?lines = Inr (?out, [u ''Inventory processing complete.''])"
    by (simp add: eval_defs)
  have h2: "main ?e ?out = Inr (?out, [u ''File not found: root/core/[User.java](core/User.java)'',
             u ''Inventory processing complete.''])"
    by (simp add: eval_defs)
  have h3: "1 < length ?lines" by simp
  have h4: "?out ! 1 \<noteq> ?lines ! 1" by (simp add: u_def)
  have h5: "for_loop ?e init (take 1 ?out) = Inr ?st2"
    by (simp add: eval_defs)
  have fm: "re_match file_re (strip (?out ! 1)) = Some (Some (u ''[User.java](core/User.java)''))"
    by (simp add: eval_defs)
  have ne: "\<not> os_path_exists ?e (os_path_join ?e (root_dir ?e)
      [join_star ?e (map snd (pop_loop (indent_of (?out ! 1)) (dir_stack ?st2)))
         (u ''[User.java](core/User.java)'')])"
    by (simp add: eval_defs)
  have h6: "\<not> (re_match dir_re (strip (?out ! 1)) = None \<and>
            (\<exists>f. re_match file_re (strip (?out ! 1)) = Some (Some f) \<and>
               os_path_exists ?e (os_path_join ?e (root_dir ?e)
                 [join_star ?e (map snd (pop_loop (indent_of (?out ! 1)) (dir_stack ?st2))) f])))"
    using fm ne by auto
  from relinking_keeps_links [OF h1 h2 h3 h4 h5 h6]
  have same: "?out ! 1 = ?out ! 1" by blast
  have both: "main ?e ?lines = Inr (?out, [u ''Inventory processing complete.'']) \<and>
      main ?e ?out = Inr (?out, [u ''File not found: root/core/[User.java](core/User.java)'',
             u ''Inventory processing complete.''])"
    using h1 h2 by (rule conjI)
  show ?thesis using same both by - (rule both)
qed

text \<open>
  The exception is real: when a node with the name of the link exists, the second run
  links the link.
\<close>

lemma link_line_relinked_when_target_exists:
  "main (posix_env (u ''root'') [(u ''root/a'', RegularFile), (u ''root/[a](a)'', RegularFile)])
      [u ''- a '' @ [EM_DASH] @ u '' x'' @ [10]]
     = Inr ([u ''- [a](a) '' @ [EM_DASH] @ u '' x'' @ [10]], [u ''Inventory processing complete.''])"
  and "main (posix_env (u ''root'') [(u ''root/a'', RegularFile), (u ''root/[a](a)'', RegularFile)])
      [u ''- [a](a) '' @ [EM_DASH] @ u '' x'' @ [10]]
     = Inr ([u ''- [[a](a)]([a](a)) '' @ [EM_DASH] @ u '' x'' @ [10]],
            [u ''Inventory processing complete.''])"
  by (simp_all add: eval_defs)

text \<open>
  A run that completes hands \<^verbatim>\<open>writelines\<close> as many lines as it read, in the same
  order: the iteration for line \<open>i\<close> starts with the \<open>i\<close> lines produced for the lines
  before it and appends exactly one line, which is line \<open>i\<close> of the output. A run
  completes when \<^verbatim>\<open>print\<close> never raises.
\<close>

lemma completed_run_line_for_line:
  assumes "main e lines = Inr (out, log)"
  shows "length out = length lines \<and> written e lines = Some out \<and>
     (\<forall>i<length lines. \<exists>sti sti'.
        for_loop e init (take i lines) = Inr sti \<and> new_lines sti = take i out \<and>
        loop_body e sti (lines ! i) = Inr sti' \<and> new_lines sti' = take i out @ [out ! i])"
proof -
  from main_for_loop [OF assms] obtain fin where
    fin: "for_loop e init lines = Inr fin" "out = new_lines fin" "length out = length lines"
    by blast
  have "written e lines = Some out" using fin by (simp add: written_def)
  then show ?thesis using fin(3) for_loop_nth [OF fin(1)] unfolding fin(2) by blast
qed

lemma run_completes_when_print_returns:
  assumes "\<And>out s. print_raises e out s = None"
  shows "\<exists>out log. main e lines = Inr (out, log)"
proof -
  from for_loop_returns [OF assms] obtain fin where "for_loop e init lines = Inr fin" by blast
  then show ?thesis using assms by (simp add: main_def py_print_def)
qed

lemma completed_run_example:
  "main (posix_env (u ''root'') [(u ''root/core/User.java'', RegularFile)])
      [u ''- **core/**'' @ [10], u ''  - User.java '' @ [EM_DASH] @ u '' model'' @ [10]]
     = Inr ([u ''- **core/**'' @ [10],
             u ''  - [User.java](core/User.java) '' @ [EM_DASH] @ u '' model'' @ [10]],
            [u ''Inventory processing complete.''])"
  by (simp add: eval_defs)

text \<open>
  C9. The claim (every iteration appends exactly one line, and the output document has
  the lines of the input, one for one) does not hold of the code on a host whose standard
  output cannot encode a diagnostic. A document of three lines, the second a bullet for
  a missing file whose name is not ASCII, on an ASCII standard output: the second
  iteration raises in \<^verbatim>\<open>print\<close> and appends nothing, the run ends with
  \<^verbatim>\<open>UnicodeEncodeError\<close>, and nothing is written. The same document on a UTF-8
  standard output comes out whole.
\<close>

theorem unencodable_diagnostic_loses_the_run:
  "main (ascii_env (u ''root'') [])
      [u ''- **docs/**'' @ [10],
       u ''  - '' @ [1488] @ u ''.txt '' @ [EM_DASH] @ u '' notes'' @ [10],
       u ''done'' @ [10]]
     = Inl UnicodeEncodeError \<and>
   written (ascii_env (u ''root'') [])
      [u ''- **docs/**'' @ [10],
       u ''  - '' @ [1488] @ u ''.txt '' @ [EM_DASH] @ u '' notes'' @ [10],
       u ''done'' @ [10]]
     = None \<and>
   main (posix_env (u ''root'') [])
      [u ''- **docs/**'' @ [10],
       u ''  - '' @ [1488] @ u ''.txt '' @ [EM_DASH] @ u '' notes'' @ [10],
       u ''done'' @ [10]]
     = Inr ([u ''- **docs/**'' @ [10],
             u ''  - '' @ [1488] @ u ''.txt '' @ [EM_DASH] @ u '' notes'' @ [10],
             u ''done'' @ [10]],
            [u ''File not found: root/docs/'' @ [1488] @ u ''.txt'',
             u ''Inventory processing complete.''])"
  by (simp add: eval_defs)

text \<open>
  C10. Only existence is tested: the run is the same when every node of the file system
  is taken to be a directory, and a file bullet whose token names an existing directory
  is rewritten into a link to that directory.
\<close>

theorem existence_is_all_that_is_checked:
  "main (e\<lparr>fs := \<lambda>p. map_option (\<lambda>n. Directory) (fs e p)\<rparr>) lines = main e lines \<and>
   fs (posix_env (u ''root'') [(u ''root/docs'', Directory)]) (u ''root/docs'') = Some Directory \<and>
   main (posix_env (u ''root'') [(u ''root/docs'', Directory)])
      [u ''- docs '' @ [EM_DASH] @ u '' manuals'' @ [10]]
     = Inr ([u ''- [docs](docs) '' @ [EM_DASH] @ u '' manuals'' @ [10]],
            [u ''Inventory processing complete.''])"
proof (intro conjI)
  have "\<And>p. os_path_exists (e\<lparr>fs := \<lambda>p. map_option (\<lambda>n. Directory) (fs e p)\<rparr>) p
            = os_path_exists e p"
    by (simp add: os_path_exists_def split: option.splits)
  then have loop: "for_loop (e\<lparr>fs := \<lambda>p. map_option (\<lambda>n. Directory) (fs e p)\<rparr>) init lines
               = for_loop e init lines"
    by (intro for_loop_fs) simp_all
  have pr: "py_print (e\<lparr>fs := \<lambda>p. map_option (\<lambda>n. Directory) (fs e p)\<rparr>) = py_print e"
    by (intro ext) (simp add: py_print_def)
  show "main (e\<lparr>fs := \<lambda>p. map_option (\<lambda>n. Directory) (fs e p)\<rparr>) lines = main e lines"
    unfolding main_def loop pr by (rule refl)
  show "fs (posix_env (u ''root'') [(u ''root/docs'', Directory)]) (u ''root/docs'') = Some Directory"
    by (simp add: eval_defs)
  show "main (posix_env (u ''root'') [(u ''root/docs'', Directory)])
      [u ''- docs '' @ [EM_DASH] @ u '' manuals'' @ [10]]
     = Inr ([u ''- [docs](docs) '' @ [EM_DASH] @ u '' manuals'' @ [10]],
            [u ''Inventory processing complete.''])"
    by (simp add: eval_defs)
qed

text \<open>
  The same bullet with \<^verbatim>\<open>root/a\<close> a directory and with \<^verbatim>\<open>root/a\<close> a regular file.
\<close>

theorem existence_is_all_that_is_checked_witness:
  "main (posix_env (u ''root'') [(u ''root/a'', Directory)])
      [u ''- a '' @ [EM_DASH] @ u '' x'' @ [10]]
     = main (posix_env (u ''root'') [(u ''root/a'', RegularFile)])
      [u ''- a '' @ [EM_DASH] @ u '' x'' @ [10]]"
proof -
  have "(posix_env (u ''root'') [(u ''root/a'', RegularFile)])
          \<lparr>fs := \<lambda>p. map_option (\<lambda>n. Directory)
                   (fs (posix_env (u ''root'') [(u ''root/a'', RegularFile)]) p)\<rparr>
        = posix_env (u ''root'') [(u ''root/a'', Directory)]"
    by (auto simp: posix_env_def)
  with existence_is_all_that_is_checked
         [of "posix_env (u ''root'') [(u ''root/a'', RegularFile)]"
             "[u ''- a '' @ [EM_DASH] @ u '' x'' @ [10]]"]
  show ?thesis by simp
qed

end
